theory Spec2Isabelle
  imports Complex_Main "HOL-Library.Word" "HOL-Library.Multiset" "HOL-Library.Log_Nat"
begin

section \<open>Data model of fast-ok-server.go\<close>

text \<open>
  The program keeps its statistics in package-level variables: two global counters,
  a \<^verbatim>\<open>sync.Map\<close> from host name to a pointer to a \<^verbatim>\<open>hostStats\<close> object, and one
  \<^verbatim>\<open>methodStats\<close> value. All counters are \<^verbatim>\<open>uint64\<close>: addition and subtraction wrap
  around at \<open>2 ^ 64\<close>, which is what \<open>64 word\<close> does.
\<close>

type_synonym uint64 = "64 word"

record hostStats =
  requests :: uint64
  bytes :: uint64

record methodStats =
  get :: uint64
  post :: uint64
  other :: uint64

text \<open>
  The package-level variables together with the heap on which the \<^verbatim>\<open>hostStats\<close> objects
  live. A pointer is a natural number; \<open>heapNext\<close> counts the objects allocated so far,
  so a fresh object gets the address \<open>heapNext\<close>. The \<^verbatim>\<open>sync.Map\<close> is an association list
  from host to pointer; \<^verbatim>\<open>Range\<close> visits its entries in an order that the library leaves
  open, and the list order of \<open>hostMap\<close> stands for that order: the theorems about the
  reporter hold for every order of the list.
\<close>

record registry =
  totalRequests :: uint64
  totalBytes :: uint64
  hostMap :: "(string \<times> nat) list"
  methods :: methodStats
  heap :: "nat \<Rightarrow> hostStats"
  heapNext :: nat

definition zeroHostStats :: hostStats where
  "zeroHostStats = \<lparr>requests = 0, bytes = 0\<rparr>"

definition initRegistry :: registry where
  "initRegistry =
     \<lparr>totalRequests = 0, totalBytes = 0, hostMap = [],
      methods = \<lparr>get = 0, post = 0, other = 0\<rparr>,
      heap = (\<lambda>_. zeroHostStats), heapNext = 0\<rparr>"

text \<open>
  What the handler reads from and writes to its \<^verbatim>\<open>*fasthttp.RequestCtx\<close>: the host and
  the method as byte strings, the lengths of the raw header block, of the body and of
  the request URI (each the result of Go's \<^verbatim>\<open>len\<close>, so a non-negative \<^verbatim>\<open>int\<close>), and the
  three parts of the response that the handler sets.
\<close>

record RequestCtx =
  Host :: string
  Method :: string
  HeaderLen :: nat
  BodyLen :: nat
  RequestURILen :: nat
  StatusCode :: nat
  ContentType :: string
  ResponseBody :: string

section \<open>Request classification (handler, lines 55 to 65)\<close>

text \<open>
  \<^verbatim>\<open>strings.ToLower\<close> has a fast path for strings whose bytes are all below \<open>0x80\<close>: each
  byte in \<open>A..Z\<close> gets \<open>'a' - 'A' = 32\<close> added. Any other string goes through
  \<^verbatim>\<open>strings.Map(unicode.ToLower, s)\<close>, whose case tables belong to the Go library; that
  path is the parameter \<open>mapUnicode\<close>.
\<close>

definition lowerByte :: "char \<Rightarrow> char" where
  "lowerByte c =
     (let n = (of_char c :: nat) in if 65 \<le> n \<and> n \<le> 90 then char_of (n + 32) else c)"

definition isASCII :: "string \<Rightarrow> bool" where
  "isASCII s = list_all (\<lambda>c. (of_char c :: nat) < 128) s"

definition ToLower :: "(string \<Rightarrow> string) \<Rightarrow> string \<Rightarrow> string" where
  "ToLower mapUnicode s = (if isASCII s then map lowerByte s else mapUnicode s)"

definition hostKey :: "(string \<Rightarrow> string) \<Rightarrow> string \<Rightarrow> string" where
  "hostKey mapUnicode rawHost =
     (let host = ToLower mapUnicode rawHost in if host = [] then ''(no-host)'' else host)"

text \<open>
  \<^verbatim>\<open>reqSize := uint64(headersLen + bodyLen + methodLen + uriLen + estReqLine)\<close>. The sum is
  taken on Go's 64-bit \<^verbatim>\<open>int\<close> and then converted; both wrap modulo \<open>2 ^ 64\<close>, so the
  result is the true sum reduced modulo \<open>2 ^ 64\<close>.
\<close>

definition estReqLine :: nat where
  "estReqLine = 11"

definition reqSizeOf :: "nat \<Rightarrow> nat \<Rightarrow> nat \<Rightarrow> nat \<Rightarrow> uint64" where
  "reqSizeOf headersLen bodyLen methodLen uriLen =
     word_of_nat (headersLen + bodyLen + methodLen + uriLen + estReqLine)"

definition reqSize :: "RequestCtx \<Rightarrow> uint64" where
  "reqSize ctx = reqSizeOf (HeaderLen ctx) (BodyLen ctx) (length (Method ctx)) (RequestURILen ctx)"

section \<open>The operations on the shared state\<close>

text \<open>\<^verbatim>\<open>hostMap.Load\<close>, \<^verbatim>\<open>&hostStats{}\<close> and \<^verbatim>\<open>hostMap.LoadOrStore\<close>.\<close>

definition Load :: "registry \<Rightarrow> string \<Rightarrow> nat option" where
  "Load st host = map_of (hostMap st) host"

definition newHostStats :: "registry \<Rightarrow> nat \<times> registry" where
  "newHostStats st =
     (heapNext st,
      st\<lparr>heap := (heap st)(heapNext st := zeroHostStats), heapNext := heapNext st + 1\<rparr>)"

definition LoadOrStore :: "registry \<Rightarrow> string \<Rightarrow> nat \<Rightarrow> nat \<times> bool \<times> registry" where
  "LoadOrStore st host p =
     (case map_of (hostMap st) host of
        Some actual \<Rightarrow> (actual, True, st)
      | None \<Rightarrow> (p, False, st\<lparr>hostMap := hostMap st @ [(host, p)]\<rparr>))"

text \<open>The \<^verbatim>\<open>atomic.AddUint64\<close> calls, one definition per counter.\<close>

definition addTotalBytes :: "uint64 \<Rightarrow> registry \<Rightarrow> registry" where
  "addTotalBytes n st = st\<lparr>totalBytes := totalBytes st + n\<rparr>"

definition addTotalRequests :: "uint64 \<Rightarrow> registry \<Rightarrow> registry" where
  "addTotalRequests n st = st\<lparr>totalRequests := totalRequests st + n\<rparr>"

definition addHostRequests :: "nat \<Rightarrow> uint64 \<Rightarrow> registry \<Rightarrow> registry" where
  "addHostRequests hs n st =
     st\<lparr>heap := (heap st)(hs := (heap st hs)\<lparr>requests := requests (heap st hs) + n\<rparr>)\<rparr>"

definition addHostBytes :: "nat \<Rightarrow> uint64 \<Rightarrow> registry \<Rightarrow> registry" where
  "addHostBytes hs n st =
     st\<lparr>heap := (heap st)(hs := (heap st hs)\<lparr>bytes := bytes (heap st hs) + n\<rparr>)\<rparr>"

text \<open>The \<^verbatim>\<open>switch string(ctx.Method())\<close> of lines 83 to 90.\<close>

definition countMethod :: "string \<Rightarrow> methodStats \<Rightarrow> methodStats" where
  "countMethod m ms =
     (if m = ''GET'' then ms\<lparr>get := get ms + 1\<rparr>
      else if m = ''POST'' then ms\<lparr>post := post ms + 1\<rparr>
      else ms\<lparr>other := other ms + 1\<rparr>)"

section \<open>The request handler \<open>h\<close>, run without interference\<close>

text \<open>Lines 70 to 78: the stored \<^verbatim>\<open>hostStats\<close> of a host, created when absent.\<close>

definition loadOrCreate :: "string \<Rightarrow> registry \<Rightarrow> nat \<times> registry" where
  "loadOrCreate host st =
     (case Load st host of
        Some v \<Rightarrow> (v, st)
      | None \<Rightarrow>
          (let (newHS, st1) = newHostStats st;
               (actual, loaded, st2) = LoadOrStore st1 host newHS
           in (if loaded then actual else newHS, st2)))"

definition h :: "(string \<Rightarrow> string) \<Rightarrow> RequestCtx \<Rightarrow> registry \<Rightarrow> registry \<times> RequestCtx" where
  "h mapUnicode ctx st =
     (let host = hostKey mapUnicode (Host ctx);
          n = reqSize ctx;
          st1 = addTotalBytes n st;
          st2 = addTotalRequests 1 st1;
          (hs, st3) = loadOrCreate host st2;
          st4 = addHostRequests hs 1 st3;
          st5 = addHostBytes hs n st4;
          st6 = st5\<lparr>methods := countMethod (Method ctx) (methods st5)\<rparr>
      in (st6, ctx\<lparr>StatusCode := 200,
                    ContentType := ''text/plain; charset=utf-8'',
                    ResponseBody := ''OK''\<rparr>))"

text \<open>A sequence of requests handled one after the other.\<close>

fun serve :: "(string \<Rightarrow> string) \<Rightarrow> RequestCtx list \<Rightarrow> registry \<Rightarrow> registry" where
  "serve mapUnicode [] st = st"
| "serve mapUnicode (ctx # ctxs) st = serve mapUnicode ctxs (fst (h mapUnicode ctx st))"

section \<open>The stats goroutine (lines 111 to 187)\<close>

text \<open>
  The reporter's own variables: \<^verbatim>\<open>prevSnapshots\<close> is a Go map, so a missing key reads
  as the zero \<^verbatim>\<open>hostStats\<close>.
\<close>

record reporter =
  prevSnapshots :: "string \<rightharpoonup> hostStats"
  prevTotalReq :: uint64
  prevTotalBytes :: uint64

definition initReporter :: reporter where
  "initReporter = \<lparr>prevSnapshots = Map.empty, prevTotalReq = 0, prevTotalBytes = 0\<rparr>"

subsection \<open>The arithmetic of \<^verbatim>\<open>float64\<close>\<close>

text \<open>
  The two averages of the reporter are \<^verbatim>\<open>float64(db) / float64(dr)\<close> and
  \<^verbatim>\<open>float64(dbytes) / float64(dreq)\<close>: two conversions from \<^verbatim>\<open>uint64\<close> and one division,
  each rounded to the nearest \<^verbatim>\<open>float64\<close>, on a tie to the one with the even mantissa
  (IEEE 754 binary64 with its 53 bits of mantissa, which Go prescribes). The model holds
  a \<^verbatim>\<open>float64\<close> by its value. The operands of the division are results of conversions,
  so they are natural numbers, at most \<open>2 ^ 64\<close>; the divisor is not zero wherever the
  program divides (the guards \<^verbatim>\<open>dr > 0\<close> and \<^verbatim>\<open>dreq > 0\<close>), so no infinity, no NaN and no
  subnormal number arises.

  \<open>roundHalfEven n d\<close> is the natural number nearest to \<open>n / d\<close>, the even one of two
  that are equally near.
\<close>

definition roundHalfEven :: "nat \<Rightarrow> nat \<Rightarrow> nat" where
  "roundHalfEven n d =
     (let q = n div d; r = n mod d
      in if 2 * r < d then q else if d < 2 * r then q + 1 else if even q then q else q + 1)"

text \<open>
  \<^verbatim>\<open>float64(x)\<close> for a \<^verbatim>\<open>uint64\<close> of value \<open>n\<close>. \<open>floorlog 2 n\<close> is the number of bits of
  \<open>n\<close>. A number of at most 53 bits converts exactly (\<open>s = 0\<close>); a longer one is rounded
  to a multiple of \<open>2 ^ s\<close>, where \<open>s\<close> is the number of bits beyond 53.
\<close>

definition float64 :: "nat \<Rightarrow> nat" where
  "float64 n = (let s = floorlog 2 n - 53 in roundHalfEven n (2 ^ s) * 2 ^ s)"

text \<open>
  \<^verbatim>\<open>a / b\<close> on \<^verbatim>\<open>float64\<close>, for two operands whose values are the natural numbers \<open>a\<close> and
  \<open>b\<close>, \<open>b\<close> not zero. The quotient is scaled by a power of two, \<open>2 ^ up / 2 ^ down\<close>,
  so that it lies from \<open>2 ^ 52\<close> up to \<open>2 ^ 53\<close>; there it is rounded to a natural number,
  the mantissa, which is scaled back.
\<close>

definition float64Div :: "nat \<Rightarrow> nat \<Rightarrow> real" where
  "float64Div a b =
     (let la = floorlog 2 a; lb = floorlog 2 b;
          up = (lb + 53) - la; down0 = la - (lb + 53);
          n = a * 2 ^ up;
          down = (if 2 ^ 53 * (b * 2 ^ down0) \<le> n then down0 + 1 else down0);
          d = b * 2 ^ down
      in real (roundHalfEven n d) * 2 ^ down / 2 ^ up)"

subsection \<open>One tick\<close>

text \<open>
  The local type \<^verbatim>\<open>item\<close>. The field \<open>avg\<close> is a \<^verbatim>\<open>float64\<close>, held by its value.
\<close>

record item =
  host :: string
  req :: uint64
  bytes :: uint64
  avg :: real

text \<open>
  The two \<^verbatim>\<open>log.Printf\<close> formats, as the tuples of values they print. The uptime, read
  from the wall clock, is left out. \<open>StatsLine\<close>: requests per second, bytes per second,
  average request size, total requests, total bytes, GET, POST, OTHER. \<open>HostLine\<close>: host,
  requests per second, average size, interval requests, interval bytes.
\<close>

datatype logLine =
  StatsLine uint64 uint64 real uint64 uint64 uint64 uint64 uint64
| HostLine string uint64 real uint64 uint64

text \<open>
  A run-time panic of the goroutine. Nothing recovers it, so it ends the process.
\<close>

datatype panic = DivideByZero | SliceBoundsOutOfRange

text \<open>Go's \<^verbatim>\<open>/\<close> on \<^verbatim>\<open>uint64\<close>: a zero divisor panics.\<close>

definition udiv :: "uint64 \<Rightarrow> uint64 \<Rightarrow> panic + uint64" where
  "udiv a b = (if b = 0 then Inl DivideByZero else Inr (a div b))"

text \<open>\<^verbatim>\<open>prevSnapshots[h]\<close>: reading a Go map at a missing key gives the zero value.\<close>

definition lookupPrev :: "(string \<rightharpoonup> hostStats) \<Rightarrow> string \<Rightarrow> hostStats" where
  "lookupPrev snaps k = (case snaps k of None \<Rightarrow> zeroHostStats | Some p \<Rightarrow> p)"

text \<open>The callback of \<^verbatim>\<open>hostMap.Range\<close> (lines 137 to 155), for one entry.\<close>

definition visitHost ::
  "(nat \<Rightarrow> hostStats) \<Rightarrow> string \<times> nat \<Rightarrow>
   (string \<rightharpoonup> hostStats) \<times> item list \<Rightarrow> (string \<rightharpoonup> hostStats) \<times> item list" where
  "visitHost hp kv acc =
     (let (k, v) = kv;
          (snaps, items) = acc;
          hs = hp v;
          currReq = requests hs;
          currBytes = hostStats.bytes hs;
          prev = lookupPrev snaps k;
          dreq = currReq - requests prev;
          dbytes = currBytes - hostStats.bytes prev;
          items' =
            (if dreq > 0
             then items @ [\<lparr>host = k, req = dreq, bytes = dbytes,
                             avg = float64Div (float64 (unat dbytes)) (float64 (unat dreq))\<rparr>]
             else items)
      in (snaps(k \<mapsto> \<lparr>requests = currReq, bytes = currBytes\<rparr>), items'))"

fun RangeHosts ::
  "(nat \<Rightarrow> hostStats) \<Rightarrow> (string \<times> nat) list \<Rightarrow>
   (string \<rightharpoonup> hostStats) \<times> item list \<Rightarrow> (string \<rightharpoonup> hostStats) \<times> item list" where
  "RangeHosts hp [] acc = acc"
| "RangeHosts hp (kv # kvs) acc = RangeHosts hp kvs (visitHost hp kv acc)"

text \<open>
  Lines 158 to 160. \<open>topN\<close> (the parameter \<^verbatim>\<open>top\<close>) is a Go \<^verbatim>\<open>int\<close> taken from a flag
  and may be negative; \<^verbatim>\<open>items[:top]\<close> then panics.
\<close>

definition truncateTop :: "int \<Rightarrow> item list \<Rightarrow> panic + item list" where
  "truncateTop topN items =
     (if int (length items) > topN
      then (if topN < 0 then Inl SliceBoundsOutOfRange else Inr (take (nat topN) items))
      else Inr items)"

text \<open>The loop of lines 173 to 183.\<close>

fun hostLines :: "uint64 \<Rightarrow> item list \<Rightarrow> panic + logLine list" where
  "hostLines secs [] = Inr []"
| "hostLines secs (it # its) =
     (case udiv (req it) secs of
        Inl e \<Rightarrow> Inl e
      | Inr rate \<Rightarrow>
          (case hostLines secs its of
             Inl e \<Rightarrow> Inl e
           | Inr ls \<Rightarrow> Inr (HostLine (host it) rate (avg it) (req it) (item.bytes it) # ls)))"

text \<open>
  One pass of the loop body, for one tick. \<open>secs\<close> is the value of
  \<^verbatim>\<open>uint64(interval.Seconds())\<close>, which is the same at every tick. \<open>sortSlice\<close> is
  \<^verbatim>\<open>sort.Slice\<close>; its second argument in the source is the closure of line 157,
  \<^verbatim>\<open>func(i, j int) bool { return items[i].req > items[j].req }\<close>, which the model passes
  as a relation on the elements. The source reads the counters one by one with atomic
  loads; the model reads them all from one state of the registry. The result is the
  panic that ends the process, or the reporter's new variables and the lines logged.
  The arguments of a \<^verbatim>\<open>log.Printf\<close> are evaluated before it prints, so a panic in the
  statistics line leaves nothing logged.
\<close>

definition tick ::
  "((item \<Rightarrow> item \<Rightarrow> bool) \<Rightarrow> item list \<Rightarrow> item list) \<Rightarrow> uint64 \<Rightarrow> int \<Rightarrow> registry \<Rightarrow>
   reporter \<Rightarrow> panic + reporter \<times> logLine list" where
  "tick sortSlice secs topN st rp =
     (let currTotalReq = totalRequests st;
          currTotalBytes = totalBytes st;
          dr = currTotalReq - prevTotalReq rp;
          db = currTotalBytes - prevTotalBytes rp;
          average = (if dr > 0 then float64Div (float64 (unat db)) (float64 (unat dr)) else 0);
          mg = get (methods st);
          mp = post (methods st);
          mo = other (methods st);
          (snaps, items0) = RangeHosts (heap st) (hostMap st) (prevSnapshots rp, [])
      in case truncateTop topN (sortSlice (\<lambda>a b. req a > req b) items0) of
           Inl e \<Rightarrow> Inl e
         | Inr items \<Rightarrow>
             (case udiv dr secs of
                Inl e \<Rightarrow> Inl e
              | Inr reqRate \<Rightarrow>
                  (case udiv db secs of
                     Inl e \<Rightarrow> Inl e
                   | Inr byteRate \<Rightarrow>
                       (case hostLines secs items of
                          Inl e \<Rightarrow> Inl e
                        | Inr ls \<Rightarrow>
                            Inr (\<lparr>prevSnapshots = snaps, prevTotalReq = currTotalReq,
                                  prevTotalBytes = currTotalBytes\<rparr>,
                                 StatsLine reqRate byteRate average currTotalReq
                                   currTotalBytes mg mp mo # ls)))))"

text \<open>
  \<^verbatim>\<open>sort.Slice\<close> belongs to the Go library. Its contract, for a comparison \<open>lessFn\<close> that is
  a strict weak ordering: the result is a rearrangement of the slice in which no later
  element is less than an earlier one. The order of elements of which neither is less
  than the other is left open, so the theorems assume the contract and nothing more.
\<close>

definition strictWeakOrder :: "('a \<Rightarrow> 'a \<Rightarrow> bool) \<Rightarrow> bool" where
  "strictWeakOrder lessFn \<longleftrightarrow>
     (\<forall>a. \<not> lessFn a a) \<and> (\<forall>a b c. lessFn a b \<and> lessFn b c \<longrightarrow> lessFn a c)
     \<and> (\<forall>a b c. \<not> lessFn a b \<and> \<not> lessFn b c \<longrightarrow> \<not> lessFn a c)"

definition sortContract :: "(('a \<Rightarrow> 'a \<Rightarrow> bool) \<Rightarrow> 'a list \<Rightarrow> 'a list) \<Rightarrow> bool" where
  "sortContract sortSlice \<longleftrightarrow>
     (\<forall>lessFn xs. strictWeakOrder lessFn \<longrightarrow>
        mset (sortSlice lessFn xs) = mset xs
        \<and> sorted_wrt (\<lambda>a b. \<not> lessFn b a) (sortSlice lessFn xs))"

text \<open>
  One function with that contract, the insertion sort that \<^verbatim>\<open>sort.Slice\<close> runs on short
  slices: each element moves left past the elements that it is less than. The sorted
  prefix is kept reversed.
\<close>

fun insertLeft :: "('a \<Rightarrow> 'a \<Rightarrow> bool) \<Rightarrow> 'a \<Rightarrow> 'a list \<Rightarrow> 'a list" where
  "insertLeft lessFn x [] = [x]"
| "insertLeft lessFn x (y # ys) = (if lessFn x y then y # insertLeft lessFn x ys else x # y # ys)"

definition insertionSort :: "('a \<Rightarrow> 'a \<Rightarrow> bool) \<Rightarrow> 'a list \<Rightarrow> 'a list" where
  "insertionSort lessFn xs = rev (foldl (\<lambda>pre x. insertLeft lessFn x pre) [] xs)"

section \<open>The handler as a sequence of atomic steps\<close>

text \<open>
  Requests are served by concurrent goroutines. Each shared access of the handler is one
  atomic operation (\<^verbatim>\<open>atomic.AddUint64\<close>, \<^verbatim>\<open>sync.Map.Load\<close>, \<^verbatim>\<open>sync.Map.LoadOrStore\<close>),
  so a run of the server is an interleaving of these steps. A worker is one running
  call of \<open>h\<close>: its context, its local variables \<^verbatim>\<open>host\<close>, \<^verbatim>\<open>reqSize\<close>, \<^verbatim>\<open>v\<close> and
  \<^verbatim>\<open>newHS\<close>, and the step it executes next.
\<close>

datatype pc =
  AtAddTotalBytes | AtAddTotalRequests | AtLoad | AtNewHS | AtLoadOrStore
| AtAddHostRequests | AtAddHostBytes | AtCountMethod | AtRespond | Finished

record worker =
  wctx :: RequestCtx
  whost :: string
  wreqSize :: uint64
  wv :: nat
  wnewHS :: nat
  wpc :: pc

text \<open>Lines 55 to 65 touch no shared state: they set up the local variables.\<close>

definition spawn :: "(string \<Rightarrow> string) \<Rightarrow> RequestCtx \<Rightarrow> worker" where
  "spawn mapUnicode ctx =
     \<lparr>wctx = ctx, whost = hostKey mapUnicode (Host ctx), wreqSize = reqSize ctx,
      wv = 0, wnewHS = 0, wpc = AtAddTotalBytes\<rparr>"

definition hstep :: "registry \<Rightarrow> worker \<Rightarrow> registry \<times> worker" where
  "hstep st w =
     (case wpc w of
        AtAddTotalBytes \<Rightarrow> (addTotalBytes (wreqSize w) st, w\<lparr>wpc := AtAddTotalRequests\<rparr>)
      | AtAddTotalRequests \<Rightarrow> (addTotalRequests 1 st, w\<lparr>wpc := AtLoad\<rparr>)
      | AtLoad \<Rightarrow>
          (case Load st (whost w) of
             Some v \<Rightarrow> (st, w\<lparr>wv := v, wpc := AtAddHostRequests\<rparr>)
           | None \<Rightarrow> (st, w\<lparr>wpc := AtNewHS\<rparr>))
      | AtNewHS \<Rightarrow>
          (let (newHS, st') = newHostStats st
           in (st', w\<lparr>wnewHS := newHS, wpc := AtLoadOrStore\<rparr>))
      | AtLoadOrStore \<Rightarrow>
          (let (actual, loaded, st') = LoadOrStore st (whost w) (wnewHS w)
           in (st', w\<lparr>wv := (if loaded then actual else wnewHS w),
                       wpc := AtAddHostRequests\<rparr>))
      | AtAddHostRequests \<Rightarrow> (addHostRequests (wv w) 1 st, w\<lparr>wpc := AtAddHostBytes\<rparr>)
      | AtAddHostBytes \<Rightarrow> (addHostBytes (wv w) (wreqSize w) st, w\<lparr>wpc := AtCountMethod\<rparr>)
      | AtCountMethod \<Rightarrow>
          (st\<lparr>methods := countMethod (Method (wctx w)) (methods st)\<rparr>, w\<lparr>wpc := AtRespond\<rparr>)
      | AtRespond \<Rightarrow>
          (st, w\<lparr>wctx := (wctx w)\<lparr>StatusCode := 200,
                                   ContentType := ''text/plain; charset=utf-8'',
                                   ResponseBody := ''OK''\<rparr>,
                   wpc := Finished\<rparr>)
      | Finished \<Rightarrow> (st, w))"

text \<open>
  The states the server can be in: it starts with the initial registry and no worker; a
  request may arrive at any moment and starts a worker; any unfinished worker may take
  its next step.
\<close>

inductive reachable :: "(string \<Rightarrow> string) \<Rightarrow> registry \<Rightarrow> worker list \<Rightarrow> bool"
  for mapUnicode :: "string \<Rightarrow> string" where
  start: "reachable mapUnicode initRegistry []"
| arrive: "reachable mapUnicode st ws \<Longrightarrow> reachable mapUnicode st (ws @ [spawn mapUnicode ctx])"
| step: "reachable mapUnicode st ws \<Longrightarrow> i < length ws \<Longrightarrow> wpc (ws ! i) \<noteq> Finished \<Longrightarrow>
         hstep st (ws ! i) = (st', w') \<Longrightarrow> reachable mapUnicode st' (ws[i := w'])"

text \<open>The position of a step in the handler, in program order.\<close>

fun rank :: "pc \<Rightarrow> nat" where
  "rank AtAddTotalBytes = 0"
| "rank AtAddTotalRequests = 1"
| "rank AtLoad = 2"
| "rank AtNewHS = 3"
| "rank AtLoadOrStore = 4"
| "rank AtAddHostRequests = 5"
| "rank AtAddHostBytes = 6"
| "rank AtCountMethod = 7"
| "rank AtRespond = 8"
| "rank Finished = 9"

text \<open>
  A worker that takes nine steps in a row, with no other worker in between; a worker
  that has finished stays as it is. A schedule is the list of the indices of the workers
  that step, in order; an index that names no unfinished worker is skipped.
\<close>

definition alone :: "registry \<times> worker \<Rightarrow> registry \<times> worker" where
  "alone = (\<lambda>(st, w). hstep st w) ^^ 9"

fun runSchedule :: "registry \<times> worker list \<Rightarrow> nat list \<Rightarrow> registry \<times> worker list" where
  "runSchedule cfg [] = cfg"
| "runSchedule cfg (i # sched) =
     (if i < length (snd cfg) \<and> wpc (snd cfg ! i) \<noteq> Finished
      then runSchedule
             (fst (hstep (fst cfg) (snd cfg ! i)),
              (snd cfg)[i := snd (hstep (fst cfg) (snd cfg ! i))]) sched
      else runSchedule cfg sched)"

section \<open>Vocabulary of the statements\<close>

text \<open>
  What it means that the \<^verbatim>\<open>float64\<close> of value \<open>r\<close> is the positive real number \<open>x\<close>
  rounded to \<^verbatim>\<open>float64\<close>: with the exponent \<open>e\<close> that brings \<open>x / 2 ^ e\<close> between \<open>2 ^ 52\<close>
  and \<open>2 ^ 53\<close>, the mantissa \<open>m\<close> is a natural number nearest to \<open>x / 2 ^ e\<close>, the even
  one if two are equally near, and \<open>r = m * 2 ^ e\<close>. The bounds on \<open>e\<close> are those of the
  normal numbers of binary64.
\<close>

definition roundsToFloat64 :: "real \<Rightarrow> real \<Rightarrow> bool" where
  "roundsToFloat64 x r \<longleftrightarrow>
     (\<exists>m e. - 1074 \<le> e \<and> e \<le> 970
        \<and> 2 ^ 52 \<le> x / 2 powi e \<and> x / 2 powi e < 2 ^ 53
        \<and> \<bar>real m - x / 2 powi e\<bar> \<le> 1 / 2
        \<and> (\<bar>real m - x / 2 powi e\<bar> = 1 / 2 \<longrightarrow> even m)
        \<and> r = real m * 2 powi e)"

text \<open>
  Three abbreviations for the proofs about the reporter (no statement of a claim uses
  them): the item that the callback of \<^verbatim>\<open>Range\<close> builds for a host entry, the items of
  the entries whose request delta is positive, in the order of the entries, and the
  host line that the loop of lines 173 to 183 logs for an item.
\<close>

definition itemOf :: "(nat \<Rightarrow> hostStats) \<Rightarrow> (string \<rightharpoonup> hostStats) \<Rightarrow> string \<times> nat \<Rightarrow> item" where
  "itemOf hp snaps kv =
     (let dreq = requests (hp (snd kv)) - requests (lookupPrev snaps (fst kv));
          dbytes = hostStats.bytes (hp (snd kv)) - hostStats.bytes (lookupPrev snaps (fst kv))
      in \<lparr>host = fst kv, req = dreq, bytes = dbytes,
          avg = float64Div (float64 (unat dbytes)) (float64 (unat dreq))\<rparr>)"

definition candidates :: "registry \<Rightarrow> reporter \<Rightarrow> item list" where
  "candidates st rp =
     map (itemOf (heap st) (prevSnapshots rp))
       (filter (\<lambda>kv. 0 < req (itemOf (heap st) (prevSnapshots rp) kv)) (hostMap st))"

definition hostLine :: "uint64 \<Rightarrow> item \<Rightarrow> logLine" where
  "hostLine secs it = HostLine (host it) (req it div secs) (avg it) (req it) (item.bytes it)"

text \<open>
  The size estimate of a request as a number, before the conversion to \<^verbatim>\<open>uint64\<close>, and
  the sum over a sequence of requests.
\<close>

definition sizeNat :: "RequestCtx \<Rightarrow> nat" where
  "sizeNat ctx = HeaderLen ctx + BodyLen ctx + length (Method ctx) + RequestURILen ctx + 11"

definition totalSizeNat :: "RequestCtx list \<Rightarrow> nat" where
  "totalSizeNat ctxs = sum_list (map sizeNat ctxs)"

text \<open>
  Every counter of \<open>st'\<close> is at least the counter of \<open>st\<close>: the two totals, the three
  method counters, and the pair of every host entry of \<open>st\<close>, which \<open>st'\<close> still holds
  under the same key.
\<close>

definition countersLe :: "registry \<Rightarrow> registry \<Rightarrow> bool" where
  "countersLe st st' \<longleftrightarrow>
     totalRequests st \<le> totalRequests st' \<and> totalBytes st \<le> totalBytes st'
     \<and> get (methods st) \<le> get (methods st') \<and> post (methods st) \<le> post (methods st')
     \<and> other (methods st) \<le> other (methods st')
     \<and> (\<forall>k p. Load st k = Some p \<longrightarrow>
           Load st' k = Some p
           \<and> requests (heap st p) \<le> requests (heap st' p)
           \<and> hostStats.bytes (heap st p) \<le> hostStats.bytes (heap st' p))"

text \<open>
  An invariant of the runs from the initial state: after at most \<open>n\<close> requests with
  size estimates adding up to at most \<open>b\<close>, no request counter is beyond \<open>n\<close> and no
  byte counter beyond \<open>b\<close>, and every pointer of the host map is an allocated object.
\<close>

definition bounded :: "nat \<Rightarrow> nat \<Rightarrow> registry \<Rightarrow> bool" where
  "bounded n b st \<longleftrightarrow>
     unat (totalRequests st) \<le> n \<and> unat (totalBytes st) \<le> b
     \<and> unat (get (methods st)) \<le> n \<and> unat (post (methods st)) \<le> n
     \<and> unat (other (methods st)) \<le> n
     \<and> (\<forall>p. unat (requests (heap st p)) \<le> n \<and> unat (hostStats.bytes (heap st p)) \<le> b)
     \<and> (\<forall>kv\<in>set (hostMap st). snd kv < heapNext st)"

text \<open>
  Invariants of the reachable states. The shape of the host map: one entry per key, one
  object per entry, every stored pointer allocated; an object that a worker has
  allocated and not yet offered to \<^verbatim>\<open>LoadOrStore\<close> is allocated, not in the map, and not
  the object of another such worker.
\<close>

definition shapeInv :: "registry \<Rightarrow> worker list \<Rightarrow> bool" where
  "shapeInv st ws \<longleftrightarrow>
     distinct (map fst (hostMap st)) \<and> distinct (map snd (hostMap st))
     \<and> (\<forall>kv\<in>set (hostMap st). snd kv < heapNext st)
     \<and> (\<forall>j<length ws. wpc (ws ! j) = AtLoadOrStore \<longrightarrow>
           wnewHS (ws ! j) < heapNext st \<and> wnewHS (ws ! j) \<notin> snd ` set (hostMap st))
     \<and> (\<forall>i<length ws. \<forall>j<length ws. i \<noteq> j \<and> wpc (ws ! i) = AtLoadOrStore
           \<and> wpc (ws ! j) = AtLoadOrStore \<longrightarrow> wnewHS (ws ! i) \<noteq> wnewHS (ws ! j))"

text \<open>A worker past line 78 holds in \<^verbatim>\<open>v\<close> the object stored under its host.\<close>

definition holdInv :: "registry \<Rightarrow> worker list \<Rightarrow> bool" where
  "holdInv st ws \<longleftrightarrow>
     (\<forall>j<length ws. 5 \<le> rank (wpc (ws ! j)) \<longrightarrow>
        Load st (whost (ws ! j)) = Some (wv (ws ! j)))"

text \<open>
  The increments that the workers of host \<open>k\<close> have made so far: one request for each
  worker past line 80, its size for each worker past line 81.
\<close>

definition reqCount :: "string \<Rightarrow> worker list \<Rightarrow> uint64" where
  "reqCount k ws = sum_list (map (\<lambda>w. if whost w = k \<and> 6 \<le> rank (wpc w) then 1 else 0) ws)"

definition byteCount :: "string \<Rightarrow> worker list \<Rightarrow> uint64" where
  "byteCount k ws =
     sum_list (map (\<lambda>w. if whost w = k \<and> 7 \<le> rank (wpc w) then wreqSize w else 0) ws)"

text \<open>
  A pending new object is still zero, and the object stored for a host holds exactly
  the increments of the workers of that host.
\<close>

definition countInv :: "registry \<Rightarrow> worker list \<Rightarrow> bool" where
  "countInv st ws \<longleftrightarrow>
     (\<forall>j<length ws. wpc (ws ! j) = AtLoadOrStore \<longrightarrow>
        heap st (wnewHS (ws ! j)) = zeroHostStats)
     \<and> (\<forall>kv\<in>set (hostMap st).
          requests (heap st (snd kv)) = reqCount (fst kv) ws
          \<and> hostStats.bytes (heap st (snd kv)) = byteCount (fst kv) ws)"

text \<open>The totals hold exactly the increments of the workers past lines 67 and 68.\<close>

definition totalsInv :: "registry \<Rightarrow> worker list \<Rightarrow> bool" where
  "totalsInv st ws \<longleftrightarrow>
     totalBytes st = sum_list (map (\<lambda>w. if 1 \<le> rank (wpc w) then wreqSize w else 0) ws)
     \<and> totalRequests st = sum_list (map (\<lambda>w. if 2 \<le> rank (wpc w) then 1 else 0) ws)"

text \<open>
  Every counter can take the increments of one request of size \<open>n\<close> without wrapping.
\<close>

definition headroom :: "nat \<Rightarrow> registry \<Rightarrow> bool" where
  "headroom n st \<longleftrightarrow>
     unat (totalRequests st) + 1 < 2 ^ 64 \<and> unat (totalBytes st) + n < 2 ^ 64
     \<and> unat (get (methods st)) + 1 < 2 ^ 64 \<and> unat (post (methods st)) + 1 < 2 ^ 64
     \<and> unat (other (methods st)) + 1 < 2 ^ 64
     \<and> (\<forall>p. unat (requests (heap st p)) + 1 < 2 ^ 64
             \<and> unat (hostStats.bytes (heap st p)) + n < 2 ^ 64)"

text \<open>The local \<^verbatim>\<open>reqSize\<close> of a worker is the size estimate of its request.\<close>

definition sizeInv :: "worker list \<Rightarrow> bool" where
  "sizeInv ws \<longleftrightarrow> (\<forall>j<length ws. wreqSize (ws ! j) = reqSize (wctx (ws ! j)))"

text \<open>A worker that has finished has set the fixed response.\<close>

definition respondedInv :: "worker list \<Rightarrow> bool" where
  "respondedInv ws \<longleftrightarrow>
     (\<forall>j<length ws. wpc (ws ! j) = Finished \<longrightarrow>
        StatusCode (wctx (ws ! j)) = 200
        \<and> ContentType (wctx (ws ! j)) = ''text/plain; charset=utf-8''
        \<and> ResponseBody (wctx (ws ! j)) = ''OK'')"

section \<open>Concrete requests and states\<close>

definition getRequest :: RequestCtx where
  "getRequest =
     \<lparr>Host = [], Method = ''GET'', HeaderLen = 10, BodyLen = 0, RequestURILen = 1,
      StatusCode = 0, ContentType = [], ResponseBody = []\<rparr>"

definition postRequest :: RequestCtx where
  "postRequest =
     \<lparr>Host = ''Example.COM'', Method = ''POST'', HeaderLen = 100, BodyLen = 50,
      RequestURILen = 20, StatusCode = 0, ContentType = [], ResponseBody = []\<rparr>"

text \<open>A request whose size estimate is \<open>2 ^ 21\<close>, two mebibytes.\<close>

definition bigRequest :: RequestCtx where
  "bigRequest =
     \<lparr>Host = [], Method = ''POST'', HeaderLen = 100, BodyLen = 2097017, RequestURILen = 20,
      StatusCode = 0, ContentType = [], ResponseBody = []\<rparr>"

text \<open>A \<^verbatim>\<open>GET\<close> request whose size estimate is \<open>n + 15\<close>.\<close>

definition plainGet :: "nat \<Rightarrow> RequestCtx" where
  "plainGet n =
     \<lparr>Host = ''a.test'', Method = ''GET'', HeaderLen = n, BodyLen = 0, RequestURILen = 1,
      StatusCode = 0, ContentType = [], ResponseBody = []\<rparr>"

text \<open>
  The reporter's second tick. At the first one the totals were 100 requests and 5000
  bytes, of two hosts: \<open>idle.test\<close> with 80 requests and 4000 bytes, \<open>b.test\<close> with 20
  and 1000. Since then \<open>idle.test\<close> has had no request, \<open>b.test\<close> has had 12 more, and
  six new hosts have come; altogether 50 requests and 3000 bytes.
\<close>

definition eightHosts :: registry where
  "eightHosts =
     \<lparr>totalRequests = 150, totalBytes = 8000,
      hostMap = [(''idle.test'', 0), (''a.test'', 1), (''b.test'', 2), (''c.test'', 3),
                 (''d.test'', 4), (''e.test'', 5), (''f.test'', 6), (''g.test'', 7)],
      methods = \<lparr>get = 100, post = 40, other = 10\<rparr>,
      heap = (\<lambda>p. if p < 8
                   then \<lparr>requests = [80, 4, 32, 3, 10, 8, 7, 6] ! p,
                         bytes = [4000, 240, 1720, 180, 600, 480, 420, 360] ! p\<rparr>
                   else zeroHostStats),
      heapNext = 8\<rparr>"

definition earlierReporter :: reporter where
  "earlierReporter =
     \<lparr>prevSnapshots = [''idle.test'' \<mapsto> \<lparr>requests = 80, bytes = 4000\<rparr>,
                        ''b.test'' \<mapsto> \<lparr>requests = 20, bytes = 1000\<rparr>],
      prevTotalReq = 100, prevTotalBytes = 5000\<rparr>"

text \<open>
  Two requests without host race for the first entry: both miss in \<^verbatim>\<open>Load\<close>, both
  allocate, the second stores its object first and the first finds it in
  \<^verbatim>\<open>LoadOrStore\<close>; then both run to the end.
\<close>

definition raceRun :: "registry \<times> worker list" where
  "raceRun =
     runSchedule (initRegistry, [spawn (\<lambda>s. s) getRequest, spawn (\<lambda>s. s) getRequest])
       [0, 0, 0, 1, 1, 1, 0, 1, 1, 0, 0, 1, 0, 1, 0, 1, 0, 1]"

section \<open>Classification\<close>

lemma lowerByte_eval:
  "map lowerByte ''Example.COM'' = ''example.com''"
  by code_simp

lemma isASCII_eval:
  "isASCII ''Example.COM''"
  by code_simp

lemma unat_word_of_nat_64:
  assumes "n < 2 ^ 64"
  shows "unat (word_of_nat n :: uint64) = n"
  using assms by (simp add: unat_of_nat)

lemma unat_reqSizeOf:
  assumes "a + b + c + d + 11 < 2 ^ 64"
  shows "unat (reqSizeOf a b c d) = a + b + c + d + 11"
  unfolding reqSizeOf_def estReqLine_def using assms by (rule unat_word_of_nat_64)

lemma ToLower_Nil_iff:
  assumes "\<forall>s. s \<noteq> [] \<longrightarrow> mapUnicode s \<noteq> []"
  shows "ToLower mapUnicode s = [] \<longleftrightarrow> s = []"
proof (cases "isASCII s")
  case True
  then show ?thesis by (simp add: ToLower_def)
next
  case False
  then have "s \<noteq> []" by (auto simp: isASCII_def)
  with assms False show ?thesis by (simp add: ToLower_def)
qed

lemma hostKey_eq:
  assumes "\<forall>s. s \<noteq> [] \<longrightarrow> mapUnicode s \<noteq> []"
  shows "hostKey mapUnicode rawHost =
           (if rawHost = [] then ''(no-host)'' else ToLower mapUnicode rawHost)"
  using ToLower_Nil_iff [OF assms, of rawHost] by (simp add: hostKey_def Let_def)

lemma hostKey_example: "hostKey mapUnicode ''Example.COM'' = ''example.com''"
  using isASCII_eval lowerByte_eval by (simp only: hostKey_def ToLower_def Let_def if_True) simp

lemma hostKey_Nil: "hostKey mapUnicode [] = ''(no-host)''"
  by (simp add: hostKey_def ToLower_def isASCII_def)

lemma reqSizeOf_examples: "reqSizeOf 100 50 4 20 = 185" "reqSizeOf 10 0 3 1 = 25"
  by (simp_all add: reqSizeOf_def estReqLine_def)

lemma reqSizeOf_word:
  "reqSizeOf a b c d = word_of_nat a + word_of_nat b + word_of_nat c + word_of_nat d + 11"
  by (simp add: reqSizeOf_def estReqLine_def)

lemma loadOrCreate_absent:
  assumes "Load st k = None"
  shows "loadOrCreate k st =
           (heapNext st,
            st\<lparr>heap := (heap st)(heapNext st := zeroHostStats),
               heapNext := heapNext st + 1,
               hostMap := hostMap st @ [(k, heapNext st)]\<rparr>)"
  using assms by (simp add: loadOrCreate_def newHostStats_def LoadOrStore_def Load_def)

lemma loadOrCreate_present:
  assumes "Load st k = Some v"
  shows "loadOrCreate k st = (v, st)"
  using assms by (simp add: loadOrCreate_def)

lemma h_absent:
  assumes "Load st (hostKey u (Host ctx)) = None"
  shows "fst (h u ctx st) =
     st\<lparr>totalBytes := totalBytes st + reqSize ctx,
        totalRequests := totalRequests st + 1,
        hostMap := hostMap st @ [(hostKey u (Host ctx), heapNext st)],
        heap := (heap st)(heapNext st := \<lparr>requests = 1, bytes = reqSize ctx\<rparr>),
        heapNext := heapNext st + 1,
        methods := countMethod (Method ctx) (methods st)\<rparr>"
proof -
  have "Load (addTotalRequests 1 (addTotalBytes (reqSize ctx) st)) (hostKey u (Host ctx)) = None"
    using assms by (simp add: Load_def addTotalRequests_def addTotalBytes_def)
  from loadOrCreate_absent [OF this] show ?thesis
    by (simp add: h_def Let_def addTotalBytes_def addTotalRequests_def addHostRequests_def
        addHostBytes_def zeroHostStats_def)
qed

lemma h_present:
  assumes "Load st (hostKey u (Host ctx)) = Some v"
  shows "fst (h u ctx st) =
     st\<lparr>totalBytes := totalBytes st + reqSize ctx,
        totalRequests := totalRequests st + 1,
        heap := (heap st)(v := (heap st v)\<lparr>requests := requests (heap st v) + 1,
                                 hostStats.bytes := hostStats.bytes (heap st v) + reqSize ctx\<rparr>),
        methods := countMethod (Method ctx) (methods st)\<rparr>"
proof -
  have "Load (addTotalRequests 1 (addTotalBytes (reqSize ctx) st)) (hostKey u (Host ctx)) = Some v"
    using assms by (simp add: Load_def addTotalRequests_def addTotalBytes_def)
  from loadOrCreate_present [OF this] show ?thesis
    by (simp add: h_def Let_def addTotalBytes_def addTotalRequests_def addHostRequests_def
        addHostBytes_def)
qed

lemma h_response:
  "snd (h u ctx st) = ctx\<lparr>StatusCode := 200, ContentType := ''text/plain; charset=utf-8'',
                          ResponseBody := ''OK''\<rparr>"
  by (simp add: h_def Let_def split_beta)

lemma h_totals:
  "totalBytes (fst (h u ctx st)) = totalBytes st + reqSize ctx"
  "totalRequests (fst (h u ctx st)) = totalRequests st + 1"
  "methods (fst (h u ctx st)) = countMethod (Method ctx) (methods st)"
  by (cases "Load st (hostKey u (Host ctx))"; simp add: h_absent h_present)+

lemma h_Load:
  "Load (fst (h u ctx st)) (hostKey u (Host ctx)) =
     Some (case Load st (hostKey u (Host ctx)) of Some v \<Rightarrow> v | None \<Rightarrow> heapNext st)"
proof (cases "Load st (hostKey u (Host ctx))")
  case None
  then show ?thesis by (simp add: h_absent) (simp add: Load_def map_add_def)
next
  case (Some v)
  then show ?thesis by (simp add: h_present) (simp add: Load_def)
qed

lemma lowerByte_table:
  "lowerByte c =
     (case map_of (zip ''ABCDEFGHIJKLMNOPQRSTUVWXYZ'' ''abcdefghijklmnopqrstuvwxyz'') c of
        Some l \<Rightarrow> l | None \<Rightarrow> c)"
proof -
  have "\<forall>c\<in>set (Enum.enum :: char list). lowerByte c =
     (case map_of (zip ''ABCDEFGHIJKLMNOPQRSTUVWXYZ'' ''abcdefghijklmnopqrstuvwxyz'') c of
        Some l \<Rightarrow> l | None \<Rightarrow> c)"
    by code_simp
  then show ?thesis
    using in_enum [of c] by blast
qed

lemma of_char_lowerByte:
  "(of_char (lowerByte c) :: nat) =
     (if 65 \<le> (of_char c :: nat) \<and> (of_char c :: nat) \<le> 90 then of_char c + 32 else of_char c)"
  by (simp add: lowerByte_def Let_def)

lemma hostKey_table:
  assumes "\<forall>s. s \<noteq> [] \<longrightarrow> mapUnicode s \<noteq> []"
  shows "hostKey mapUnicode rawHost =
           (if rawHost = [] then ''(no-host)''
            else if list_all (\<lambda>c. of_char c < (128::nat)) rawHost
            then map (\<lambda>c. case map_of (zip ''ABCDEFGHIJKLMNOPQRSTUVWXYZ''
                                             ''abcdefghijklmnopqrstuvwxyz'') c of
                            Some l \<Rightarrow> l | None \<Rightarrow> c) rawHost
            else mapUnicode rawHost)"
proof -
  have "map lowerByte rawHost =
          map (\<lambda>c. case map_of (zip ''ABCDEFGHIJKLMNOPQRSTUVWXYZ''
                                     ''abcdefghijklmnopqrstuvwxyz'') c of
                      Some l \<Rightarrow> l | None \<Rightarrow> c) rawHost"
    by (rule map_cong) (simp_all only: lowerByte_table)
  then show ?thesis
    unfolding hostKey_eq [OF assms] ToLower_def isASCII_def by simp
qed

lemma hostKey_bytes:
  assumes "list_all (\<lambda>c. of_char c < (128::nat)) rawHost" and "rawHost \<noteq> []"
  shows "length (hostKey mapUnicode rawHost) = length rawHost"
    and "\<forall>i<length rawHost. (of_char (hostKey mapUnicode rawHost ! i) :: nat) =
           (if 65 \<le> (of_char (rawHost ! i) :: nat) \<and> (of_char (rawHost ! i) :: nat) \<le> 90
            then of_char (rawHost ! i) + 32 else of_char (rawHost ! i))"
proof -
  from assms have k: "hostKey mapUnicode rawHost = map lowerByte rawHost"
    by (simp add: hostKey_def ToLower_def isASCII_def Let_def)
  show "length (hostKey mapUnicode rawHost) = length rawHost"
    by (simp add: k)
  show "\<forall>i<length rawHost. (of_char (hostKey mapUnicode rawHost ! i) :: nat) =
           (if 65 \<le> (of_char (rawHost ! i) :: nat) \<and> (of_char (rawHost ! i) :: nat) \<le> 90
            then of_char (rawHost ! i) + 32 else of_char (rawHost ! i))"
    by (simp add: k of_char_lowerByte)
qed

text \<open>
  Claim C2. Classification yields the lower-cased host as key, or the sentinel
  \<open>(no-host)\<close> for an empty host, and the size estimate is the sum of the four byte
  lengths plus 11. Lower-cased, for a host whose bytes are all below 128: every capital
  letter \<open>A\<close> to \<open>Z\<close> is replaced by its small letter and every other byte is kept; in
  byte values, 32 is added to the bytes from 65 to 90, and the length stays. A host
  with a byte from 128 on goes through the Unicode case tables of the Go library, of
  which the statement needs only that they map no non-empty string to the empty one
  (\<^verbatim>\<open>strings.Map\<close> with \<^verbatim>\<open>unicode.ToLower\<close> drops no rune). The size is exact as a number
  for lengths whose sum stays below \<open>2 ^ 64\<close>, which holds for the lengths of byte
  slices in memory, and it is the sum in \<^verbatim>\<open>uint64\<close> arithmetic without any condition. The
  handler files the request under this key and adds this size to \<open>totalBytes\<close>.
\<close>

theorem classify_hostKey_sizeEstimate:
  assumes "\<forall>s. s \<noteq> [] \<longrightarrow> mapUnicode s \<noteq> []"
    and "headerByteLen + bodyByteLen + methodByteLen + uriByteLen + 11 < 2 ^ 64"
  shows "hostKey mapUnicode rawHost =
           (if rawHost = [] then ''(no-host)''
            else if list_all (\<lambda>c. of_char c < (128::nat)) rawHost
            then map (\<lambda>c. case map_of (zip ''ABCDEFGHIJKLMNOPQRSTUVWXYZ''
                                             ''abcdefghijklmnopqrstuvwxyz'') c of
                            Some l \<Rightarrow> l | None \<Rightarrow> c) rawHost
            else mapUnicode rawHost)
       \<and> (list_all (\<lambda>c. of_char c < (128::nat)) rawHost \<and> rawHost \<noteq> [] \<longrightarrow>
            length (hostKey mapUnicode rawHost) = length rawHost
            \<and> (\<forall>i<length rawHost. (of_char (hostKey mapUnicode rawHost ! i) :: nat) =
                 (if 65 \<le> (of_char (rawHost ! i) :: nat) \<and> (of_char (rawHost ! i) :: nat) \<le> 90
                  then of_char (rawHost ! i) + 32 else of_char (rawHost ! i))))
       \<and> unat (reqSizeOf headerByteLen bodyByteLen methodByteLen uriByteLen) =
           headerByteLen + bodyByteLen + methodByteLen + uriByteLen + 11
       \<and> reqSizeOf headerByteLen bodyByteLen methodByteLen uriByteLen =
           word_of_nat headerByteLen + word_of_nat bodyByteLen + word_of_nat methodByteLen
             + word_of_nat uriByteLen + 11
       \<and> hostKey mapUnicode ''Example.COM'' = ''example.com'' \<and> reqSizeOf 100 50 4 20 = 185
       \<and> hostKey mapUnicode [] = ''(no-host)'' \<and> reqSizeOf 10 0 3 1 = 25
       \<and> Load (fst (h mapUnicode ctx st)) (hostKey mapUnicode (Host ctx)) \<noteq> None
       \<and> totalBytes (fst (h mapUnicode ctx st)) =
           totalBytes st + reqSizeOf (HeaderLen ctx) (BodyLen ctx) (length (Method ctx))
             (RequestURILen ctx)"
proof -
  have "totalBytes (fst (h mapUnicode ctx st)) =
           totalBytes st + reqSizeOf (HeaderLen ctx) (BodyLen ctx) (length (Method ctx))
             (RequestURILen ctx)"
    by (simp add: h_totals reqSize_def)
  moreover have "Load (fst (h mapUnicode ctx st)) (hostKey mapUnicode (Host ctx)) \<noteq> None"
    by (simp add: h_Load)
  moreover note hostKey_table [OF assms(1), of rawHost]
  moreover have "list_all (\<lambda>c. of_char c < (128::nat)) rawHost \<and> rawHost \<noteq> [] \<longrightarrow>
            length (hostKey mapUnicode rawHost) = length rawHost
            \<and> (\<forall>i<length rawHost. (of_char (hostKey mapUnicode rawHost ! i) :: nat) =
                 (if 65 \<le> (of_char (rawHost ! i) :: nat) \<and> (of_char (rawHost ! i) :: nat) \<le> 90
                  then of_char (rawHost ! i) + 32 else of_char (rawHost ! i)))"
    using hostKey_bytes [of rawHost mapUnicode] by blast
  moreover note unat_reqSizeOf [OF assms(2)]
    reqSizeOf_word [of headerByteLen bodyByteLen methodByteLen uriByteLen]
    hostKey_example [of mapUnicode] hostKey_Nil [of mapUnicode] reqSizeOf_examples
  ultimately show ?thesis
    by (intro conjI)
qed

theorem classify_hostKey_sizeEstimate_witness:
  "hostKey (\<lambda>s. s) ''Example.COM'' = ''example.com'' \<and> unat (reqSizeOf 100 50 4 20) = 185
   \<and> hostKey (\<lambda>s. s) [] = ''(no-host)'' \<and> unat (reqSizeOf 10 0 3 1) = 25
   \<and> hostKey (\<lambda>s. s) ''WWW.Go-Lang_9.ORG:8080'' = ''www.go-lang_9.org:8080''
   \<and> length (hostKey (\<lambda>s. s) ''WWW.Go-Lang_9.ORG:8080'') = 22
   \<and> (of_char (hostKey (\<lambda>s. s) ''WWW.Go-Lang_9.ORG:8080'' ! 4) :: nat) = 71 + 32"
proof -
  have u: "\<forall>s::string. s \<noteq> [] \<longrightarrow> (\<lambda>s. s) s \<noteq> []" by simp
  have b1: "(100::nat) + 50 + 4 + 20 + 11 < 2 ^ 64" by simp
  have b2: "(10::nat) + 0 + 3 + 1 + 11 < 2 ^ 64" by simp
  have e: "(if ''WWW.Go-Lang_9.ORG:8080'' = [] then ''(no-host)''
            else if list_all (\<lambda>c. of_char c < (128::nat)) ''WWW.Go-Lang_9.ORG:8080''
            then map (\<lambda>c. case map_of (zip ''ABCDEFGHIJKLMNOPQRSTUVWXYZ''
                                             ''abcdefghijklmnopqrstuvwxyz'') c of
                            Some l \<Rightarrow> l | None \<Rightarrow> c) ''WWW.Go-Lang_9.ORG:8080''
            else (\<lambda>s. s) ''WWW.Go-Lang_9.ORG:8080'') = ''www.go-lang_9.org:8080''"
    by code_simp
  have a: "list_all (\<lambda>c. of_char c < (128::nat)) ''WWW.Go-Lang_9.ORG:8080''
           \<and> ''WWW.Go-Lang_9.ORG:8080'' \<noteq> []"
    by code_simp
  have c: "(of_char (''WWW.Go-Lang_9.ORG:8080'' ! 4) :: nat) = 71"
    by code_simp
  note w = classify_hostKey_sizeEstimate [OF u b1, of "''WWW.Go-Lang_9.ORG:8080''"]
  from w have 1: "hostKey (\<lambda>s. s) ''WWW.Go-Lang_9.ORG:8080'' = ''www.go-lang_9.org:8080''"
    unfolding e by (rule conjunct1)
  from w a have 2: "length (hostKey (\<lambda>s. s) ''WWW.Go-Lang_9.ORG:8080'') = 22"
    and 3: "(of_char (hostKey (\<lambda>s. s) ''WWW.Go-Lang_9.ORG:8080'' ! 4) :: nat) = 71 + 32"
    by (simp_all add: c)
  show ?thesis
    using classify_hostKey_sizeEstimate [OF u b1, of "''Example.COM''"]
      classify_hostKey_sizeEstimate [OF u b2, of "[]"] 1 2 3
    by simp
qed

text \<open>
  Claim C9. A request counts as GET exactly when its method is the string \<open>GET\<close>, as
  POST exactly when it is \<open>POST\<close>, and as OTHER in every other case; the comparison is
  on the bytes, so \<open>get\<close> and \<open>post\<close> count as OTHER.
\<close>

theorem method_category_exact:
  "get (methods (fst (h mapUnicode ctx st))) =
     get (methods st) + (if Method ctx = ''GET'' then 1 else 0)
   \<and> post (methods (fst (h mapUnicode ctx st))) =
     post (methods st) + (if Method ctx = ''POST'' then 1 else 0)
   \<and> other (methods (fst (h mapUnicode ctx st))) =
     other (methods st) + (if Method ctx = ''GET'' \<or> Method ctx = ''POST'' then 0 else 1)
   \<and> countMethod ''get'' ms = ms\<lparr>other := other ms + 1\<rparr>
   \<and> countMethod ''post'' ms = ms\<lparr>other := other ms + 1\<rparr>"
  by (simp add: h_totals countMethod_def)

section \<open>Totals over a sequence of requests\<close>

lemma serve_append: "serve u (xs @ ys) st = serve u ys (serve u xs st)"
  by (induction xs arbitrary: st) simp_all

lemma serve_totalRequests:
  "totalRequests (serve u ctxs st) = totalRequests st + word_of_nat (length ctxs)"
  by (induction ctxs arbitrary: st) (simp_all add: h_totals)

lemma serve_totalBytes:
  "totalBytes (serve u ctxs st) = totalBytes st + sum_list (map reqSize ctxs)"
  by (induction ctxs arbitrary: st) (simp_all add: h_totals add.assoc)

lemma sum_list_perm:
  fixes f :: "'a \<Rightarrow> 'b::comm_monoid_add"
  assumes "mset xs = mset ys"
  shows "sum_list (map f xs) = sum_list (map f ys)"
proof -
  have "sum_list (map f xs) = sum_mset (image_mset f (mset xs))"
    by (simp add: sum_mset_sum_list [symmetric])
  also have "\<dots> = sum_mset (image_mset f (mset ys))"
    using assms by simp
  also have "\<dots> = sum_list (map f ys)"
    by (simp add: sum_mset_sum_list [symmetric])
  finally show ?thesis .
qed

lemma unat_sum_list:
  fixes xs :: "uint64 list"
  assumes "sum_list (map unat xs) < 2 ^ 64"
  shows "unat (sum_list xs) = sum_list (map unat xs)"
  using assms
proof (induction xs)
  case Nil
  then show ?case by simp
next
  case (Cons x xs)
  then have "unat (sum_list xs) = sum_list (map unat xs)" by simp
  moreover from Cons.prems have "unat x + sum_list (map unat xs) < 2 ^ LENGTH(64)" by simp
  ultimately show ?case
    by (simp add: unat_add_lem [THEN iffD1])
qed

section \<open>The arithmetic of \<^verbatim>\<open>float64\<close>\<close>

lemma roundHalfEven_int:
  assumes "0 < d"
  shows "\<bar>int (roundHalfEven n d) * int d - int n\<bar> * 2 \<le> int d
       \<and> (\<bar>int (roundHalfEven n d) * int d - int n\<bar> * 2 = int d \<longrightarrow> even (roundHalfEven n d))"
proof -
  define q where "q = n div d"
  define r where "r = n mod d"
  have n: "int n = int q * int d + int r"
    unfolding q_def r_def by (metis div_mult_mod_eq of_nat_add of_nat_mult)
  have r: "r < d" unfolding r_def using assms by simp
  have e: "roundHalfEven n d = (if 2 * r < d then q else if d < 2 * r then q + 1 else if even q then q else q + 1)"
    by (simp add: roundHalfEven_def q_def r_def Let_def)
  show ?thesis
    unfolding e n using r by (auto simp: algebra_simps)
qed

lemma roundHalfEven_real:
  assumes "0 < d"
  shows "\<bar>real (roundHalfEven n d) * real d - real n\<bar> * 2 \<le> real d"
    and "\<bar>real (roundHalfEven n d) * real d - real n\<bar> * 2 = real d \<Longrightarrow> even (roundHalfEven n d)"
proof -
  let ?m = "roundHalfEven n d"
  have eq: "\<bar>real ?m * real d - real n\<bar> * 2 = real_of_int (\<bar>int ?m * int d - int n\<bar> * 2)"
    by simp
  from roundHalfEven_int [OF assms, of n]
  show "\<bar>real ?m * real d - real n\<bar> * 2 \<le> real d"
    unfolding eq by (metis of_int_le_iff of_int_of_nat_eq)
  assume "\<bar>real ?m * real d - real n\<bar> * 2 = real d"
  then have "real_of_int (\<bar>int ?m * int d - int n\<bar> * 2) = real_of_int (int d)"
    unfolding eq by simp
  then have "\<bar>int ?m * int d - int n\<bar> * 2 = int d"
    by (simp only: of_int_eq_iff)
  with roundHalfEven_int [OF assms, of n] show "even ?m" by blast
qed

lemma roundHalfEven_one: "roundHalfEven n 1 = n"
  by (simp add: roundHalfEven_def)

lemma roundHalfEven_exact: "0 < d \<Longrightarrow> roundHalfEven (q * d) d = q"
  by (simp add: roundHalfEven_def)


lemma floorlog_two_bounds:
  assumes "0 < a"
  shows "2 ^ floorlog 2 a \<le> 2 * a" and "a < 2 ^ floorlog 2 a"
proof -
  from floorlog_bounds [of a 2] assms
  have l: "2 ^ (floorlog 2 a - 1) \<le> a" and u: "a < 2 ^ floorlog 2 a" by simp_all
  from assms have "0 < floorlog 2 a" by (simp add: floorlog_def)
  then have "(2::nat) ^ floorlog 2 a = 2 * 2 ^ (floorlog 2 a - 1)"
    by (cases "floorlog 2 a") simp_all
  with l show "2 ^ floorlog 2 a \<le> 2 * a" by simp
  from u show "a < 2 ^ floorlog 2 a" .
qed

lemma scale_bounds:
  fixes a b :: nat
  assumes "0 < a" and "0 < b"
  defines "up \<equiv> (floorlog 2 b + 53) - floorlog 2 a"
    and "down \<equiv> floorlog 2 a - (floorlog 2 b + 53)"
  shows "2 ^ 52 * (b * 2 ^ down) < a * 2 ^ up" and "a * 2 ^ up < 2 ^ 54 * (b * 2 ^ down)"
proof -
  have e: "floorlog 2 a + up = 53 + floorlog 2 b + down"
    unfolding up_def down_def by simp
  have p: "(2::nat) ^ floorlog 2 a * 2 ^ up = 2 ^ 53 * 2 ^ floorlog 2 b * 2 ^ down"
    unfolding power_add [symmetric] e ..
  note A = floorlog_two_bounds [OF assms(1)]
  note B = floorlog_two_bounds [OF assms(2)]
  have "2 ^ 53 * (b * 2 ^ down) < 2 ^ 53 * (2 ^ floorlog 2 b * 2 ^ down)"
    using B(2) by simp
  also have "\<dots> = 2 ^ floorlog 2 a * 2 ^ up"
    using p by (simp add: mult.assoc)
  also have "\<dots> \<le> (2 * a) * 2 ^ up"
    using A(1) by (rule mult_right_mono) simp
  finally have "2 * (2 ^ 52 * (b * 2 ^ down)) < 2 * (a * 2 ^ up)"
    by simp
  then show "2 ^ 52 * (b * 2 ^ down) < a * 2 ^ up" by simp
  have "a * 2 ^ up < 2 ^ floorlog 2 a * 2 ^ up"
    using A(2) by simp
  also have "\<dots> = 2 ^ 53 * (2 ^ floorlog 2 b * 2 ^ down)"
    using p by (simp add: mult.assoc)
  also have "\<dots> \<le> 2 ^ 53 * ((2 * b) * 2 ^ down)"
    using B(1) by (intro mult_left_mono mult_right_mono) simp_all
  finally show "a * 2 ^ up < 2 ^ 54 * (b * 2 ^ down)"
    by simp
qed

lemma float64Div_normal:
  fixes a b :: nat
  assumes "0 < a" and "0 < b"
  obtains up down where
    "float64Div a b = real (roundHalfEven (a * 2 ^ up) (b * 2 ^ down)) * 2 ^ down / 2 ^ up"
    and "2 ^ 52 * (b * 2 ^ down) \<le> a * 2 ^ up" and "a * 2 ^ up < 2 ^ 53 * (b * 2 ^ down)"
    and "up \<le> floorlog 2 b + 53" and "down \<le> floorlog 2 a"
proof -
  define up where "up = (floorlog 2 b + 53) - floorlog 2 a"
  define down0 where "down0 = floorlog 2 a - (floorlog 2 b + 53)"
  define down where "down = (if 2 ^ 53 * (b * 2 ^ down0) \<le> a * 2 ^ up then down0 + 1 else down0)"
  have f: "float64Div a b = real (roundHalfEven (a * 2 ^ up) (b * 2 ^ down)) * 2 ^ down / 2 ^ up"
    by (simp add: float64Div_def Let_def up_def down0_def down_def)
  from scale_bounds [OF assms]
  have l: "2 ^ 52 * (b * 2 ^ down0) < a * 2 ^ up" and u: "a * 2 ^ up < 2 ^ 54 * (b * 2 ^ down0)"
    by (simp_all add: up_def down0_def)
  have 1: "2 ^ 52 * (b * 2 ^ down) \<le> a * 2 ^ up"
    using l by (simp add: down_def)
  have 2: "a * 2 ^ up < 2 ^ 53 * (b * 2 ^ down)"
    using u by (simp add: down_def)
  have 3: "up \<le> floorlog 2 b + 53" by (simp add: up_def)
  from assms(1) have "0 < floorlog 2 a" by (simp add: floorlog_def)
  then have "down0 + 1 \<le> floorlog 2 a" unfolding down0_def by arith
  then have 4: "down \<le> floorlog 2 a" unfolding down_def by simp
  from f 1 2 3 4 show thesis by (rule that)
qed



lemma roundsToFloat64I:
  fixes m i j :: nat
  assumes "i \<le> 970" and "j \<le> 1074"
    and "2 ^ 52 * 2 ^ i \<le> x * 2 ^ j" and "x * 2 ^ j < 2 ^ 53 * 2 ^ i"
    and "\<bar>real m * 2 ^ i - x * 2 ^ j\<bar> * 2 \<le> 2 ^ i"
    and "\<bar>real m * 2 ^ i - x * 2 ^ j\<bar> * 2 = 2 ^ i \<Longrightarrow> even m"
  shows "roundsToFloat64 x (real m * 2 ^ i / 2 ^ j)"
proof -
  define e where "e = int i - int j"
  have E: "(2::real) powi e = 2 ^ i / 2 ^ j"
    unfolding e_def by (simp add: power_int_diff)
  have t: "x / 2 powi e = x * 2 ^ j / 2 ^ i"
    unfolding E by simp
  have a: "\<bar>real m - x * 2 ^ j / 2 ^ i\<bar> * 2 ^ i = \<bar>real m * 2 ^ i - x * 2 ^ j\<bar>"
  proof -
    have "\<bar>real m - x * 2 ^ j / 2 ^ i\<bar> * 2 ^ i = \<bar>(real m - x * 2 ^ j / 2 ^ i) * 2 ^ i\<bar>"
      by (simp add: abs_mult)
    also have "(real m - x * 2 ^ j / 2 ^ i) * 2 ^ i = real m * 2 ^ i - x * 2 ^ j"
      by (simp add: field_simps)
    finally show ?thesis .
  qed
  have 1: "- 1074 \<le> e" "e \<le> 970" using assms(1,2) by (simp_all add: e_def)
  have 2: "2 ^ 52 \<le> x / 2 powi e" unfolding t using assms(3) by (simp add: field_simps)
  have 3: "x / 2 powi e < 2 ^ 53" unfolding t using assms(4) by (simp add: field_simps)
  from assms(5) have "\<bar>real m - x * 2 ^ j / 2 ^ i\<bar> * 2 ^ i * 2 \<le> 1 * 2 ^ i"
    unfolding a by simp
  then have 4: "\<bar>real m - x / 2 powi e\<bar> \<le> 1 / 2"
    unfolding t by simp
  have 5: "even m" if "\<bar>real m - x / 2 powi e\<bar> = 1 / 2"
  proof -
    from that have "\<bar>real m - x * 2 ^ j / 2 ^ i\<bar> * 2 ^ i * 2 = 2 ^ i"
      unfolding t by simp
    then show ?thesis unfolding a by (rule assms(6))
  qed
  have 6: "real m * 2 ^ i / 2 ^ j = real m * 2 powi e" unfolding E by simp
  show ?thesis
    unfolding roundsToFloat64_def using 1 2 3 4 5 6 by blast
qed

lemma float64Div_rounds:
  fixes a b :: nat
  assumes "0 < a" and "0 < b" and "a < 2 ^ 900" and "b < 2 ^ 900"
  shows "roundsToFloat64 (real a / real b) (float64Div a b)"
proof -
  from assms(1,2) obtain up down where
    f: "float64Div a b = real (roundHalfEven (a * 2 ^ up) (b * 2 ^ down)) * 2 ^ down / 2 ^ up"
    and l: "2 ^ 52 * (b * 2 ^ down) \<le> a * 2 ^ up" and u: "a * 2 ^ up < 2 ^ 53 * (b * 2 ^ down)"
    and ub: "up \<le> floorlog 2 b + 53" and db: "down \<le> floorlog 2 a"
    by (rule float64Div_normal)
  define m where "m = roundHalfEven (a * 2 ^ up) (b * 2 ^ down)"
  have d: "0 < b * 2 ^ down" using assms(2) by simp
  have rb: "0 < real b" using assms(2) by simp
  have fa: "floorlog 2 a \<le> 900" using assms(3) by (simp add: floorlog_le_iff)
  have fb: "floorlog 2 b \<le> 900" using assms(4) by (simp add: floorlog_le_iff)
  have 2: "down \<le> 970" using db fa by simp
  have 3: "up \<le> 1074" using ub fb by simp
  have "real (2 ^ 52 * (b * 2 ^ down)) \<le> real (a * 2 ^ up)"
    using l by (simp only: of_nat_le_iff)
  then have 4: "2 ^ 52 * 2 ^ down \<le> real a / real b * 2 ^ up"
    using rb by (simp add: field_simps)
  have "real (a * 2 ^ up) < real (2 ^ 53 * (b * 2 ^ down))"
    using u by (simp only: of_nat_less_iff)
  then have 5: "real a / real b * 2 ^ up < 2 ^ 53 * 2 ^ down"
    using rb by (simp add: field_simps)
  have e: "\<bar>real m * 2 ^ down - real a / real b * 2 ^ up\<bar> * 2 * real b
         = \<bar>real m * real (b * 2 ^ down) - real (a * 2 ^ up)\<bar> * 2"
  proof -
    have "\<bar>real m * 2 ^ down - real a / real b * 2 ^ up\<bar> * real b
        = \<bar>(real m * 2 ^ down - real a / real b * 2 ^ up) * real b\<bar>"
      using rb by (simp add: abs_mult)
    also have "(real m * 2 ^ down - real a / real b * 2 ^ up) * real b
        = real m * real (b * 2 ^ down) - real (a * 2 ^ up)"
      using rb by (simp add: field_simps)
    finally show ?thesis by simp
  qed
  have "\<bar>real m * real (b * 2 ^ down) - real (a * 2 ^ up)\<bar> * 2 \<le> real (b * 2 ^ down)"
    unfolding m_def by (rule roundHalfEven_real(1) [OF d])
  then have "\<bar>real m * 2 ^ down - real a / real b * 2 ^ up\<bar> * 2 * real b \<le> real (b * 2 ^ down)"
    by (simp only: e)
  then have "\<bar>real m * 2 ^ down - real a / real b * 2 ^ up\<bar> * 2 * real b \<le> 2 ^ down * real b"
    by (simp add: mult.commute)
  then have 6: "\<bar>real m * 2 ^ down - real a / real b * 2 ^ up\<bar> * 2 \<le> 2 ^ down"
    using rb by simp
  have 7: "even m" if t: "\<bar>real m * 2 ^ down - real a / real b * 2 ^ up\<bar> * 2 = 2 ^ down"
  proof -
    from t have "\<bar>real m * 2 ^ down - real a / real b * 2 ^ up\<bar> * 2 * real b = 2 ^ down * real b"
      by simp
    then have "\<bar>real m * real (b * 2 ^ down) - real (a * 2 ^ up)\<bar> * 2 = real (b * 2 ^ down)"
      unfolding e by (simp add: mult.commute)
    then show ?thesis
      unfolding m_def by (rule roundHalfEven_real(2) [OF d])
  qed
  have "roundsToFloat64 (real a / real b) (real m * 2 ^ down / 2 ^ up)"
    using 2 3 4 5 6 7 by (rule roundsToFloat64I)
  then show ?thesis
    unfolding f m_def .
qed

lemma float64_small:
  assumes "n < 2 ^ 53"
  shows "float64 n = n"
proof -
  from assms have "floorlog 2 n \<le> 53" by (simp add: floorlog_le_iff)
  then show ?thesis by (simp add: float64_def roundHalfEven_def)
qed

lemma roundsToFloat64_nat:
  fixes n :: nat
  assumes "0 < n" and "n < 2 ^ 53"
  shows "roundsToFloat64 (real n) (real n)"
proof -
  define j where "j = 53 - floorlog 2 n"
  from assms(2) have le: "floorlog 2 n \<le> 53" by (simp add: floorlog_le_iff)
  then have p: "(2::nat) ^ floorlog 2 n * 2 ^ j = 2 ^ 53"
    unfolding j_def power_add [symmetric] by simp
  note A = floorlog_two_bounds [OF assms(1)]
  have "n * 2 ^ j < 2 ^ floorlog 2 n * 2 ^ j" using A(2) by simp
  then have u: "n * 2 ^ j < 2 ^ 53" unfolding p .
  have "2 ^ floorlog 2 n * 2 ^ j \<le> (2 * n) * 2 ^ j" using A(1) by (rule mult_right_mono) simp
  then have l: "2 ^ 52 \<le> n * 2 ^ j" unfolding p by simp
  have 1: "(0::nat) \<le> 970" by simp
  have 2: "j \<le> 1074" by (simp add: j_def)
  from l have "real (2 ^ 52) \<le> real (n * 2 ^ j)" by (simp only: of_nat_le_iff)
  then have 3: "2 ^ 52 * 2 ^ 0 \<le> real n * 2 ^ j" by simp
  from u have "real (n * 2 ^ j) < real (2 ^ 53)" by (simp only: of_nat_less_iff)
  then have 4: "real n * 2 ^ j < 2 ^ 53 * 2 ^ 0" by simp
  have 5: "\<bar>real (n * 2 ^ j) * 2 ^ 0 - real n * 2 ^ j\<bar> * 2 \<le> 2 ^ 0" by simp
  have 6: "even (n * 2 ^ j)" if "\<bar>real (n * 2 ^ j) * 2 ^ 0 - real n * 2 ^ j\<bar> * 2 = 2 ^ 0"
    using that by simp
  have "roundsToFloat64 (real n) (real (n * 2 ^ j) * 2 ^ 0 / 2 ^ j)"
    using 1 2 3 4 5 6 by (rule roundsToFloat64I)
  then show ?thesis by simp
qed

lemma float64_rounds:
  assumes "0 < n" and "n < 2 ^ 900"
  shows "roundsToFloat64 (real n) (real (float64 n))"
proof (cases "n < 2 ^ 53")
  case True
  with assms(1) show ?thesis by (simp add: float64_small roundsToFloat64_nat)
next
  case False
  define s where "s = floorlog 2 n - 53"
  define m where "m = roundHalfEven n (2 ^ s)"
  from False have "\<not> floorlog 2 n \<le> 53" by (simp add: floorlog_le_iff)
  then have p: "(2::nat) ^ floorlog 2 n = 2 ^ 53 * 2 ^ s"
    unfolding s_def power_add [symmetric] by simp
  note A = floorlog_two_bounds [OF assms(1)]
  have f: "float64 n = m * 2 ^ s" by (simp add: float64_def s_def m_def Let_def)
  from assms(2) have "floorlog 2 n \<le> 900" by (simp add: floorlog_le_iff)
  then have 1: "s \<le> 970" by (simp add: s_def)
  have 2: "(0::nat) \<le> 1074" by simp
  from A(1) have "2 ^ 52 * 2 ^ s \<le> n" unfolding p by simp
  then have "real (2 ^ 52 * 2 ^ s) \<le> real n" by (simp only: of_nat_le_iff)
  then have 3: "2 ^ 52 * 2 ^ s \<le> real n * 2 ^ 0" by simp
  from A(2) have "real n < real (2 ^ 53 * 2 ^ s)" unfolding p by (simp only: of_nat_less_iff)
  then have 4: "real n * 2 ^ 0 < 2 ^ 53 * 2 ^ s" by simp
  have d: "(0::nat) < 2 ^ s" by simp
  from roundHalfEven_real(1) [OF d, of n]
  have 5: "\<bar>real m * 2 ^ s - real n * 2 ^ 0\<bar> * 2 \<le> 2 ^ s"
    by (simp add: m_def)
  have 6: "even m" if "\<bar>real m * 2 ^ s - real n * 2 ^ 0\<bar> * 2 = 2 ^ s"
    using roundHalfEven_real(2) [OF d, of n] that by (simp add: m_def)
  have "roundsToFloat64 (real n) (real m * 2 ^ s / 2 ^ 0)"
    using 1 2 3 4 5 6 by (rule roundsToFloat64I)
  then show ?thesis by (simp add: f)
qed

lemma roundsToFloat64_unique:
  assumes "roundsToFloat64 x r" and "roundsToFloat64 x r'"
  shows "r = r'"
proof -
  from assms(1) obtain m e where
    b: "2 ^ 52 \<le> x / 2 powi e" "x / 2 powi e < 2 ^ 53"
    and n: "\<bar>real m - x / 2 powi e\<bar> \<le> 1 / 2"
    and t: "\<bar>real m - x / 2 powi e\<bar> = 1 / 2 \<longrightarrow> even m"
    and r: "r = real m * 2 powi e"
    unfolding roundsToFloat64_def by blast
  from assms(2) obtain m' e' where
    b': "2 ^ 52 \<le> x / 2 powi e'" "x / 2 powi e' < 2 ^ 53"
    and n': "\<bar>real m' - x / 2 powi e'\<bar> \<le> 1 / 2"
    and t': "\<bar>real m' - x / 2 powi e'\<bar> = 1 / 2 \<longrightarrow> even m'"
    and r': "r' = real m' * 2 powi e'"
    unfolding roundsToFloat64_def by blast
  have pos: "0 < (2::real) powi k" for k by simp
  have binade: "c \<le> d"
    if "2 ^ 52 \<le> x / 2 powi c" and "x / 2 powi d < 2 ^ 53" for c d :: int
  proof (rule ccontr)
    assume "\<not> c \<le> d"
    then have "d + 1 \<le> c" by simp
    then have "(2::real) powi (d + 1) \<le> 2 powi c"
      by (rule power_int_increasing) simp
    then have le: "2 * 2 powi d \<le> (2::real) powi c"
      by (simp add: power_int_add)
    from that(1) have "2 ^ 52 * 2 powi c \<le> x" using pos [of c] by (simp add: field_simps)
    moreover from that(2) have "x < 2 ^ 53 * 2 powi d" using pos [of d] by (simp add: field_simps)
    ultimately have "2 ^ 52 * 2 powi c < (2::real) ^ 53 * 2 powi d" by simp
    with le show False by simp
  qed
  from binade [OF b(1) b'(2)] binade [OF b'(1) b(2)] have e: "e' = e" by simp
  define y where "y = x / 2 powi e"
  from n n' t t' have n: "\<bar>real m - y\<bar> \<le> 1 / 2" and n': "\<bar>real m' - y\<bar> \<le> 1 / 2"
    and t: "\<bar>real m - y\<bar> = 1 / 2 \<Longrightarrow> even m" and t': "\<bar>real m' - y\<bar> = 1 / 2 \<Longrightarrow> even m'"
    unfolding e y_def by simp_all
  have "m = m'"
  proof (rule ccontr)
    assume ne: "m \<noteq> m'"
    show False
    proof (cases "m < m'")
      case True
      then have "real m + 1 \<le> real m'" by linarith
      with n n' have "real m' = real m + 1" and "\<bar>real m - y\<bar> = 1 / 2" and "\<bar>real m' - y\<bar> = 1 / 2"
        by linarith+
      then have "m' = m + 1" "even m" "even m'" using t t' by simp_all
      then show False by simp
    next
      case False
      with ne have "real m' + 1 \<le> real m" by linarith
      with n n' have "real m = real m' + 1" and "\<bar>real m - y\<bar> = 1 / 2" and "\<bar>real m' - y\<bar> = 1 / 2"
        by linarith+
      then have "m = m' + 1" "even m" "even m'" using t t' by simp_all
      then show False by simp
    qed
  qed
  then show ?thesis by (simp add: r r' e)
qed

lemma roundsToFloat64_error:
  assumes "roundsToFloat64 x r"
  shows "\<bar>r - x\<bar> \<le> x / 2 ^ 53"
proof -
  from assms obtain m e where
    b: "2 ^ 52 \<le> x / 2 powi e"
    and n: "\<bar>real m - x / 2 powi e\<bar> \<le> 1 / 2"
    and r: "r = real m * 2 powi e"
    unfolding roundsToFloat64_def by blast
  have pos: "0 < (2::real) powi e" by simp
  have "r - x = (real m - x / 2 powi e) * 2 powi e"
    unfolding r using pos by (simp add: field_simps)
  then have "\<bar>r - x\<bar> = \<bar>(real m - x / 2 powi e) * 2 powi e\<bar>"
    by simp
  also have "\<dots> = \<bar>real m - x / 2 powi e\<bar> * 2 powi e"
    using pos by (simp add: abs_mult)
  also have "\<dots> \<le> 1 / 2 * 2 powi e"
    using n pos by (simp only: mult_right_mono less_imp_le)
  also have "\<dots> \<le> 1 / 2 * (x / 2 ^ 52)"
    using b pos by (simp add: field_simps)
  finally show ?thesis by simp
qed


lemma float64Div_zero: "float64Div 0 b = 0"
  by (simp add: float64Div_def Let_def roundHalfEven_def)

lemma float64_zero: "float64 0 = 0"
  by (simp add: float64_small)

lemma float64_bounds:
  assumes "0 < n" and "n < 2 ^ 64"
  shows "0 < float64 n" and "float64 n < 2 ^ 900"
proof -
  from assms(2) have "n < 2 ^ 64 * 2 ^ 836" by (rule less_le_trans) simp
  then have b: "n < 2 ^ 900" by simp
  from roundsToFloat64_error [OF float64_rounds [OF assms(1) b]]
  have e: "\<bar>real (float64 n) - real n\<bar> \<le> real n / 2 ^ 53" .
  have h: "real n / 2 ^ 53 \<le> real n / 2" by (simp add: field_simps)
  have n0: "0 < real n" using assms(1) by simp
  from e h n0 have "0 < real (float64 n)" by linarith
  moreover from e h n0 have "real (float64 n) \<le> 2 * real n" by linarith
  then have "real (float64 n) \<le> real (2 * n)" by simp
  ultimately have p: "0 < float64 n" and "float64 n \<le> 2 * n" by (simp_all only: of_nat_0_less_iff of_nat_le_iff)
  from p show "0 < float64 n" .
  from \<open>float64 n \<le> 2 * n\<close> assms(2) have "float64 n < 2 ^ 65" by simp
  then have "float64 n < 2 ^ 65 * 2 ^ 835" by (rule less_le_trans) simp
  then show "float64 n < 2 ^ 900" by simp
qed

lemma float64Div_exact:
  assumes "0 < a" and "b dvd a" and "a < 2 ^ 53"
  shows "float64Div a b = real (a div b)"
proof -
  from assms(1,2) have b: "0 < b" by (auto intro: Nat.gr0I)
  from assms(1,2) have ba: "b \<le> a" by (simp add: dvd_imp_le)
  from assms(2) have q: "real a / real b = real (a div b)" by (simp add: real_of_nat_div)
  from assms(1,2) b have q0: "0 < a div b" by (simp add: div_greater_zero_iff ba)
  have "a div b \<le> a" by simp
  then have q1: "a div b < 2 ^ 53" using assms(3) by (rule le_less_trans)
  from assms(3) have "a < 2 ^ 53 * 2 ^ 847" by (rule less_le_trans) simp
  then have a9: "a < 2 ^ 900" by simp
  with ba have b9: "b < 2 ^ 900" by simp
  from float64Div_rounds [OF assms(1) b a9 b9]
  have "roundsToFloat64 (real (a div b)) (float64Div a b)" unfolding q .
  then show ?thesis
    using roundsToFloat64_nat [OF q0 q1] by (rule roundsToFloat64_unique)
qed

lemma floorlog_1003: "floorlog 2 1003 = 10" and floorlog_20: "floorlog 2 20 = 5"
  by (simp_all add: compute_floorlog)

lemma float64Div_1003_20: "float64Div 1003 20 = 7057985041019699 / 2 ^ 47"
  by (simp add: float64Div_def Let_def roundHalfEven_def floorlog_1003 floorlog_20)

lemma float64Div_1003_20_less: "float64Div 1003 20 < 1003 / 20"
  by (simp add: float64Div_1003_20)

text \<open>The largest \<^verbatim>\<open>uint64\<close> has 64 bits; it converts to \<open>2 ^ 64\<close>.\<close>

lemma floorlog_max:
  "floorlog 2 18446744073709551615 = 64" "floorlog 2 18446744073709551616 = 65"
  "floorlog 2 (Suc 0) = 1"
  by (simp_all add: compute_floorlog)

lemma float64_max: "float64 18446744073709551615 = 18446744073709551616"
  by (simp add: float64_def Let_def roundHalfEven_def floorlog_max)

lemma float64Div_max: "float64Div 18446744073709551616 1 = 18446744073709551616"
  by (simp add: float64Div_def Let_def roundHalfEven_def floorlog_max)

text \<open>The quotient of two converted numbers, as the reporter forms it.\<close>

lemma quotient_zero: "float64Div (float64 0) b = 0"
  by (simp add: float64_zero float64Div_zero)

lemma quotient_rounds:
  assumes "0 < a" and "a < 2 ^ 64" and "0 < b" and "b < 2 ^ 64"
  shows "\<exists>fa fb. roundsToFloat64 (real a) fa \<and> roundsToFloat64 (real b) fb
           \<and> roundsToFloat64 (fa / fb) (float64Div (float64 a) (float64 b))"
proof -
  have big: "n < 2 ^ 900" if "n < 2 ^ 64" for n :: nat
  proof -
    from that have "n < 2 ^ 64 * 2 ^ 836" by (rule less_le_trans) simp
    then show ?thesis by simp
  qed
  note A = float64_bounds [OF assms(1,2)]
  note B = float64_bounds [OF assms(3,4)]
  have "roundsToFloat64 (real a) (real (float64 a))"
    using assms(1) big [OF assms(2)] by (rule float64_rounds)
  moreover have "roundsToFloat64 (real b) (real (float64 b))"
    using assms(3) big [OF assms(4)] by (rule float64_rounds)
  moreover have "roundsToFloat64 (real (float64 a) / real (float64 b))
                   (float64Div (float64 a) (float64 b))"
    using A(1) B(1) A(2) B(2) by (rule float64Div_rounds)
  ultimately show ?thesis by blast
qed

lemma quotient_small:
  assumes "0 < a" and "a < 2 ^ 53" and "0 < b" and "b < 2 ^ 53"
  shows "roundsToFloat64 (real a / real b) (float64Div (float64 a) (float64 b))"
proof -
  have big: "n < 2 ^ 900" if "n < 2 ^ 53" for n :: nat
  proof -
    from that have "n < 2 ^ 53 * 2 ^ 847" by (rule less_le_trans) simp
    then show ?thesis by simp
  qed
  show ?thesis
    unfolding float64_small [OF assms(2)] float64_small [OF assms(4)]
    using assms(1,3) big [OF assms(2)] big [OF assms(4)] by (rule float64Div_rounds)
qed

lemma quotient_exact:
  assumes "0 < b" and "b dvd a" and "a < 2 ^ 53"
  shows "float64Div (float64 a) (float64 b) = real (a div b)"
proof (cases "a = 0")
  case True
  then show ?thesis by (simp add: quotient_zero)
next
  case False
  then have a: "0 < a" by simp
  with assms(2) have "b \<le> a" by (simp add: dvd_imp_le)
  then have b: "b < 2 ^ 53" using assms(3) by (rule le_less_trans)
  show ?thesis
    unfolding float64_small [OF assms(3)] float64_small [OF b]
    using a assms(2,3) by (rule float64Div_exact)
qed

section \<open>The reporter\<close>

lemma hostStats_eta: "\<lparr>requests = requests hs, bytes = hostStats.bytes hs\<rparr> = (hs::hostStats)"
  by simp

lemma visitHost_eq:
  "visitHost hp kv (snaps, items) =
     (snaps(fst kv \<mapsto> hp (snd kv)),
      items @ (if 0 < req (itemOf hp snaps kv) then [itemOf hp snaps kv] else []))"
  by (cases kv) (simp add: visitHost_def itemOf_def Let_def hostStats_eta)

lemma RangeHosts_eq:
  assumes "distinct (map fst kvs)"
  shows "RangeHosts hp kvs (snaps, items) =
     ((\<lambda>k. case map_of kvs k of Some p \<Rightarrow> Some (hp p) | None \<Rightarrow> snaps k),
      items @ map (itemOf hp snaps) (filter (\<lambda>kv. 0 < req (itemOf hp snaps kv)) kvs))"
  using assms
proof (induction kvs arbitrary: snaps items)
  case Nil
  then show ?case by simp
next
  case (Cons kv kvs)
  obtain k v where kv: "kv = (k, v)" by (cases kv)
  from Cons.prems kv have k: "k \<notin> fst ` set kvs" and d: "distinct (map fst kvs)" by auto
  have same: "itemOf hp (snaps(k \<mapsto> hp v)) e = itemOf hp snaps e" if "e \<in> set kvs" for e
    using that k by (auto simp: itemOf_def lookupPrev_def)
  have f: "filter (\<lambda>kv. 0 < req (itemOf hp (snaps(k \<mapsto> hp v)) kv)) kvs
         = filter (\<lambda>kv. 0 < req (itemOf hp snaps kv)) kvs"
    by (rule filter_cong) (simp_all add: same)
  have m: "map (itemOf hp (snaps(k \<mapsto> hp v))) (filter P kvs) = map (itemOf hp snaps) (filter P kvs)" for P
    by (rule map_cong) (simp_all add: same)
  have s: "(\<lambda>k'. case map_of kvs k' of Some p \<Rightarrow> Some (hp p) | None \<Rightarrow> (snaps(k \<mapsto> hp v)) k')
         = (\<lambda>k'. case map_of (kv # kvs) k' of Some p \<Rightarrow> Some (hp p) | None \<Rightarrow> snaps k')"
  proof
    fix k'
    show "(case map_of kvs k' of Some p \<Rightarrow> Some (hp p) | None \<Rightarrow> (snaps(k \<mapsto> hp v)) k')
         = (case map_of (kv # kvs) k' of Some p \<Rightarrow> Some (hp p) | None \<Rightarrow> snaps k')"
    proof (cases "k' = k")
      case True
      with k have "map_of kvs k' = None" by (simp add: map_of_eq_None_iff)
      with True kv show ?thesis by simp
    next
      case False
      with kv show ?thesis by (simp split: option.splits)
    qed
  qed
  have "RangeHosts hp (kv # kvs) (snaps, items) =
          RangeHosts hp kvs (snaps(k \<mapsto> hp v),
            items @ (if 0 < req (itemOf hp snaps kv) then [itemOf hp snaps kv] else []))"
    by (simp add: visitHost_eq kv)
  also have "\<dots> = ((\<lambda>k'. case map_of kvs k' of Some p \<Rightarrow> Some (hp p) | None \<Rightarrow> (snaps(k \<mapsto> hp v)) k'),
      (items @ (if 0 < req (itemOf hp snaps kv) then [itemOf hp snaps kv] else []))
        @ map (itemOf hp snaps) (filter (\<lambda>kv. 0 < req (itemOf hp snaps kv)) kvs))"
    unfolding Cons.IH [OF d] f m ..
  finally show ?case
    unfolding s by simp
qed

lemma RangeHosts_candidates:
  assumes "distinct (map fst (hostMap st))"
  shows "RangeHosts (heap st) (hostMap st) (prevSnapshots rp, []) =
     ((\<lambda>k. case map_of (hostMap st) k of Some p \<Rightarrow> Some (heap st p) | None \<Rightarrow> prevSnapshots rp k),
      candidates st rp)"
  using RangeHosts_eq [OF assms, of "heap st" "prevSnapshots rp" "[]"]
  by (simp add: candidates_def)

lemma hostLines_eq:
  assumes "secs \<noteq> 0"
  shows "hostLines secs its = Inr (map (hostLine secs) its)"
  using assms by (induction its) (simp_all add: udiv_def hostLine_def)

lemma truncateTop_eq:
  assumes "0 \<le> topN"
  shows "truncateTop topN items = Inr (take (nat topN) items)"
  using assms by (simp add: truncateTop_def)

lemma tick_eq:
  assumes "secs \<noteq> 0" and "0 \<le> topN"
  shows "tick sortSlice secs topN st rp =
     Inr (\<lparr>prevSnapshots = fst (RangeHosts (heap st) (hostMap st) (prevSnapshots rp, [])),
           prevTotalReq = totalRequests st, prevTotalBytes = totalBytes st\<rparr>,
          StatsLine ((totalRequests st - prevTotalReq rp) div secs)
            ((totalBytes st - prevTotalBytes rp) div secs)
            (if 0 < totalRequests st - prevTotalReq rp
             then float64Div (float64 (unat (totalBytes st - prevTotalBytes rp)))
                    (float64 (unat (totalRequests st - prevTotalReq rp)))
             else 0)
            (totalRequests st) (totalBytes st)
            (get (methods st)) (post (methods st)) (other (methods st))
          # map (hostLine secs)
              (take (nat topN)
                (sortSlice (\<lambda>a b. req b < req a)
                   (snd (RangeHosts (heap st) (hostMap st) (prevSnapshots rp, []))))))"
  using assms
  by (simp add: tick_def Let_def split_beta truncateTop_eq hostLines_eq udiv_def)

lemma tick_zero_secs:
  "tick sortSlice 0 topN st rp =
     (if topN < 0 then Inl SliceBoundsOutOfRange else Inl DivideByZero)"
  by (simp add: tick_def Let_def split_beta truncateTop_def udiv_def)

lemma mset_insertLeft: "mset (insertLeft lessFn x ys) = add_mset x (mset ys)"
  by (induction ys) simp_all

lemma mset_foldl_insertLeft:
  "mset (foldl (\<lambda>pre x. insertLeft lessFn x pre) acc xs) = mset acc + mset xs"
  by (induction xs arbitrary: acc) (simp_all add: mset_insertLeft)

lemma sorted_insertLeft:
  assumes "strictWeakOrder lessFn" and "sorted_wrt (\<lambda>a b. \<not> lessFn a b) ys"
  shows "sorted_wrt (\<lambda>a b. \<not> lessFn a b) (insertLeft lessFn x ys)"
  using assms(2)
proof (induction ys)
  case Nil
  then show ?case by simp
next
  case (Cons y ys)
  from assms(1) have irr: "\<not> lessFn a a" and tr: "lessFn a b \<Longrightarrow> lessFn b c \<Longrightarrow> lessFn a c"
    and ntr: "\<not> lessFn a b \<Longrightarrow> \<not> lessFn b c \<Longrightarrow> \<not> lessFn a c" for a b c
    unfolding strictWeakOrder_def by blast+
  show ?case
  proof (cases "lessFn x y")
    case True
    have "set (insertLeft lessFn x ys) = insert x (set ys)"
      using mset_insertLeft [of lessFn x ys] by (metis set_mset_add_mset_insert set_mset_mset)
    moreover from True have "\<not> lessFn y x" using tr irr by blast
    ultimately show ?thesis using True Cons by auto
  next
    case False
    from Cons.prems have "\<forall>z\<in>set ys. \<not> lessFn y z" by simp
    with False have "\<forall>z\<in>set ys. \<not> lessFn x z" using ntr by blast
    with False Cons.prems show ?thesis by simp
  qed
qed

lemma sorted_foldl_insertLeft:
  assumes "strictWeakOrder lessFn" and "sorted_wrt (\<lambda>a b. \<not> lessFn a b) acc"
  shows "sorted_wrt (\<lambda>a b. \<not> lessFn a b) (foldl (\<lambda>pre x. insertLeft lessFn x pre) acc xs)"
  using assms(2) by (induction xs arbitrary: acc) (simp_all add: sorted_insertLeft [OF assms(1)])

lemma sortContract_insertionSort: "sortContract insertionSort"
proof -
  have "sorted_wrt (\<lambda>a b. \<not> lessFn b a) (insertionSort lessFn xs)"
    if "strictWeakOrder lessFn" for lessFn :: "'a \<Rightarrow> 'a \<Rightarrow> bool" and xs
    using sorted_foldl_insertLeft [OF that, of "[]" xs]
    by (simp add: insertionSort_def sorted_wrt_rev)
  moreover have "mset (insertionSort lessFn xs) = mset xs" for lessFn :: "'a \<Rightarrow> 'a \<Rightarrow> bool" and xs
    by (simp add: insertionSort_def mset_foldl_insertLeft)
  ultimately show ?thesis
    by (simp add: sortContract_def)
qed

lemma strictWeakOrder_byReq: "strictWeakOrder (\<lambda>a b. req b < req a)"
  by (auto simp: strictWeakOrder_def)

text \<open>
  Claim C1. The claim asks that a tick never crashes, in particular when the whole
  seconds of the interval are zero. The code does the opposite: with \<open>secs = 0\<close>, which
  is what \<^verbatim>\<open>uint64(interval.Seconds())\<close> gives for every positive interval below one
  second, every tick panics, whatever the counters hold. With a valid \<open>topN\<close> the panic
  is the integer division by zero of line 164; nothing is logged and the process ends.
\<close>

theorem subsecond_interval_panics:
  "tick sortSlice 0 topN st rp =
     (if topN < 0 then Inl SliceBoundsOutOfRange else Inl DivideByZero)
   \<and> tick insertionSort 0 5 initRegistry initReporter = Inl DivideByZero"
  by (simp add: tick_zero_secs)

text \<open>
  Claim C4, as amended. For an interval of \<open>secs > 0\<close> whole seconds (and a \<open>topN\<close> that
  is not negative) the tick returns, stores the current totals as the new baseline, and
  its statistics line carries: the request and byte deltas \<open>dr\<close> and \<open>db\<close>, current minus
  previous in \<^verbatim>\<open>uint64\<close> arithmetic, each divided by \<open>secs\<close> with Go's truncating integer
  division; the average; the totals and the method counters. As numbers the rates are
  the quotients of the numbers, and the deltas are the differences when the counter has
  not gone back. The average is 0 when \<open>dr\<close> or \<open>db\<close> is 0. Otherwise it is not the
  quotient \<open>db / dr\<close> itself but that quotient in \<^verbatim>\<open>float64\<close> arithmetic: both deltas are
  rounded to \<^verbatim>\<open>float64\<close> and so is the quotient of the two results. Deltas below \<open>2 ^ 53\<close>
  convert exactly; the average is then \<open>db / dr\<close> rounded to \<^verbatim>\<open>float64\<close> once, which
  differs from \<open>db / dr\<close> by at most \<open>db / dr / 2 ^ 53\<close>, and it is \<open>db / dr\<close> exactly when
  \<open>dr\<close> divides \<open>db\<close>.
\<close>

theorem tick_deltas_and_rates:
  assumes "secs \<noteq> 0" and "0 \<le> topN"
  shows "let dr = totalRequests st - prevTotalReq rp;
             db = totalBytes st - prevTotalBytes rp
         in (\<exists>snaps hostls average.
               tick sortSlice secs topN st rp =
                 Inr (\<lparr>prevSnapshots = snaps, prevTotalReq = totalRequests st,
                       prevTotalBytes = totalBytes st\<rparr>,
                      StatsLine (dr div secs) (db div secs) average
                        (totalRequests st) (totalBytes st)
                        (get (methods st)) (post (methods st)) (other (methods st))
                      # hostls)
             \<and> (dr = 0 \<or> db = 0 \<longrightarrow> average = 0)
             \<and> (0 < dr \<and> 0 < db \<longrightarrow>
                  (\<exists>fb fr. roundsToFloat64 (real (unat db)) fb
                     \<and> roundsToFloat64 (real (unat dr)) fr
                     \<and> roundsToFloat64 (fb / fr) average))
             \<and> (0 < dr \<and> 0 < db \<and> unat dr < 2 ^ 53 \<and> unat db < 2 ^ 53 \<longrightarrow>
                  roundsToFloat64 (real (unat db) / real (unat dr)) average
                  \<and> \<bar>average - real (unat db) / real (unat dr)\<bar>
                      \<le> real (unat db) / real (unat dr) / 2 ^ 53)
             \<and> (0 < dr \<and> unat dr dvd unat db \<and> unat db < 2 ^ 53 \<longrightarrow>
                  average = real (unat db div unat dr)))
          \<and> unat (dr div secs) = unat dr div unat secs
          \<and> unat (db div secs) = unat db div unat secs
          \<and> (prevTotalReq rp \<le> totalRequests st \<longrightarrow>
               unat dr = unat (totalRequests st) - unat (prevTotalReq rp))
          \<and> (prevTotalBytes rp \<le> totalBytes st \<longrightarrow>
               unat db = unat (totalBytes st) - unat (prevTotalBytes rp))"
proof -
  define dr where "dr = totalRequests st - prevTotalReq rp"
  define db where "db = totalBytes st - prevTotalBytes rp"
  define average where
    "average = (if 0 < dr then float64Div (float64 (unat db)) (float64 (unat dr)) else 0)"
  have t: "tick sortSlice secs topN st rp =
     Inr (\<lparr>prevSnapshots = fst (RangeHosts (heap st) (hostMap st) (prevSnapshots rp, [])),
           prevTotalReq = totalRequests st, prevTotalBytes = totalBytes st\<rparr>,
          StatsLine (dr div secs) (db div secs) average
            (totalRequests st) (totalBytes st)
            (get (methods st)) (post (methods st)) (other (methods st))
          # map (hostLine secs)
              (take (nat topN)
                (sortSlice (\<lambda>a b. req b < req a)
                   (snd (RangeHosts (heap st) (hostMap st) (prevSnapshots rp, []))))))"
    unfolding tick_eq [OF assms] dr_def db_def average_def ..
  have lr: "unat dr < 2 ^ 64" and lb: "unat db < 2 ^ 64"
    using unsigned_less [of dr] unsigned_less [of db] by simp_all
  have pr: "0 < unat dr" if "0 < dr" using that by (simp add: unat_gt_0 word_neq_0_conv)
  have pb: "0 < unat db" if "0 < db" using that by (simp add: unat_gt_0 word_neq_0_conv)
  have 1: "dr = 0 \<or> db = 0 \<longrightarrow> average = 0"
    by (auto simp: average_def quotient_zero)
  have 2: "0 < dr \<and> 0 < db \<longrightarrow>
             (\<exists>fb fr. roundsToFloat64 (real (unat db)) fb \<and> roundsToFloat64 (real (unat dr)) fr
                \<and> roundsToFloat64 (fb / fr) average)"
  proof
    assume p: "0 < dr \<and> 0 < db"
    then have a: "average = float64Div (float64 (unat db)) (float64 (unat dr))"
      by (simp add: average_def)
    from p show "\<exists>fb fr. roundsToFloat64 (real (unat db)) fb \<and> roundsToFloat64 (real (unat dr)) fr
                \<and> roundsToFloat64 (fb / fr) average"
      unfolding a using quotient_rounds [OF pb lb pr lr] by blast
  qed
  have 3: "0 < dr \<and> 0 < db \<and> unat dr < 2 ^ 53 \<and> unat db < 2 ^ 53 \<longrightarrow>
             roundsToFloat64 (real (unat db) / real (unat dr)) average
             \<and> \<bar>average - real (unat db) / real (unat dr)\<bar>
                 \<le> real (unat db) / real (unat dr) / 2 ^ 53"
  proof
    assume p: "0 < dr \<and> 0 < db \<and> unat dr < 2 ^ 53 \<and> unat db < 2 ^ 53"
    then have a: "average = float64Div (float64 (unat db)) (float64 (unat dr))"
      by (simp add: average_def)
    from p pb pr have "0 < unat db" and "unat db < 2 ^ 53" and "0 < unat dr"
      and "unat dr < 2 ^ 53" by simp_all
    then have "roundsToFloat64 (real (unat db) / real (unat dr)) average"
      unfolding a by (rule quotient_small)
    then show "roundsToFloat64 (real (unat db) / real (unat dr)) average
             \<and> \<bar>average - real (unat db) / real (unat dr)\<bar>
                 \<le> real (unat db) / real (unat dr) / 2 ^ 53"
      using roundsToFloat64_error by blast
  qed
  have 4: "0 < dr \<and> unat dr dvd unat db \<and> unat db < 2 ^ 53 \<longrightarrow>
             average = real (unat db div unat dr)"
  proof
    assume p: "0 < dr \<and> unat dr dvd unat db \<and> unat db < 2 ^ 53"
    then have a: "average = float64Div (float64 (unat db)) (float64 (unat dr))"
      by (simp add: average_def)
    from p pr have "0 < unat dr" and "unat dr dvd unat db" and "unat db < 2 ^ 53"
      by simp_all
    then show "average = real (unat db div unat dr)"
      unfolding a by (rule quotient_exact)
  qed
  have 5: "unat (dr div secs) = unat dr div unat secs"
    and 6: "unat (db div secs) = unat db div unat secs"
    by (simp_all add: unat_div)
  have 7: "prevTotalReq rp \<le> totalRequests st \<longrightarrow>
             unat dr = unat (totalRequests st) - unat (prevTotalReq rp)"
    and 8: "prevTotalBytes rp \<le> totalBytes st \<longrightarrow>
             unat db = unat (totalBytes st) - unat (prevTotalBytes rp)"
    by (simp_all add: dr_def db_def unat_sub)
  from t 1 2 3 4 have ex: "\<exists>snaps hostls average.
               tick sortSlice secs topN st rp =
                 Inr (\<lparr>prevSnapshots = snaps, prevTotalReq = totalRequests st,
                       prevTotalBytes = totalBytes st\<rparr>,
                      StatsLine (dr div secs) (db div secs) average
                        (totalRequests st) (totalBytes st)
                        (get (methods st)) (post (methods st)) (other (methods st))
                      # hostls)
             \<and> (dr = 0 \<or> db = 0 \<longrightarrow> average = 0)
             \<and> (0 < dr \<and> 0 < db \<longrightarrow>
                  (\<exists>fb fr. roundsToFloat64 (real (unat db)) fb
                     \<and> roundsToFloat64 (real (unat dr)) fr
                     \<and> roundsToFloat64 (fb / fr) average))
             \<and> (0 < dr \<and> 0 < db \<and> unat dr < 2 ^ 53 \<and> unat db < 2 ^ 53 \<longrightarrow>
                  roundsToFloat64 (real (unat db) / real (unat dr)) average
                  \<and> \<bar>average - real (unat db) / real (unat dr)\<bar>
                      \<le> real (unat db) / real (unat dr) / 2 ^ 53)
             \<and> (0 < dr \<and> unat dr dvd unat db \<and> unat db < 2 ^ 53 \<longrightarrow>
                  average = real (unat db div unat dr))"
    by blast
  from ex 5 6 7 8 show ?thesis
    unfolding Let_def dr_def db_def by (intro conjI)
qed

theorem tick_deltas_and_rates_witness:
  "\<exists>snaps hostls.
     tick insertionSort 2 5 eightHosts earlierReporter =
       Inr (\<lparr>prevSnapshots = snaps, prevTotalReq = 150, prevTotalBytes = 8000\<rparr>,
            StatsLine 25 1500 60 150 8000 100 40 10 # hostls)"
proof -
  have s: "(2::uint64) \<noteq> 0" and t: "(0::int) \<le> 5" by simp_all
  from tick_deltas_and_rates [OF s t, where sortSlice = insertionSort and st = eightHosts
      and rp = earlierReporter]
  obtain snaps hostls average where
    1: "tick insertionSort 2 5 eightHosts earlierReporter =
          Inr (\<lparr>prevSnapshots = snaps, prevTotalReq = 150, prevTotalBytes = 8000\<rparr>,
               StatsLine 25 1500 average 150 8000 100 40 10 # hostls)"
    and 2: "average = 60"
    by (auto simp: eightHosts_def earlierReporter_def Let_def)
  then show ?thesis by blast
qed

text \<open>
  The quotient itself is not what the code reports. Twenty requests from the initial
  state, nineteen of 50 bytes and one of 53, are 1003 bytes; at the first tick the
  average is not \<open>1003 / 20 = 50.15\<close>, which no \<^verbatim>\<open>float64\<close> equals, but the \<^verbatim>\<open>float64\<close> next
  to it, \<open>7057985041019699 / 2 ^ 47\<close>, which is smaller.
\<close>

theorem average_rounding_counterexample:
  "\<exists>rp' mg mp mo hostls average.
     tick insertionSort 1 5
       (serve (\<lambda>s. s) (replicate 19 (plainGet 35) @ [plainGet 38]) initRegistry) initReporter =
       Inr (rp', StatsLine 20 1003 average 20 1003 mg mp mo # hostls)
     \<and> average \<noteq> 1003 / 20 \<and> average < 1003 / 20
     \<and> average = 7057985041019699 / 2 ^ 47"
proof -
  let ?st = "serve (\<lambda>s. s) (replicate 19 (plainGet 35) @ [plainGet 38]) initRegistry"
  have r: "totalRequests ?st = 20"
    by (simp add: serve_totalRequests initRegistry_def)
  have b: "totalBytes ?st = 1003"
    by (simp add: serve_totalBytes initRegistry_def sum_list_replicate reqSize_def
        reqSizeOf_def estReqLine_def plainGet_def)
  have s: "(1::uint64) \<noteq> 0" and t: "(0::int) \<le> 5" by simp_all
  have f: "float64 1003 = 1003" "float64 20 = 20"
    by (simp_all add: float64_small)
  have "tick insertionSort 1 5 ?st initReporter =
     Inr (\<lparr>prevSnapshots = fst (RangeHosts (heap ?st) (hostMap ?st) (Map.empty, [])),
           prevTotalReq = 20, prevTotalBytes = 1003\<rparr>,
          StatsLine 20 1003 (7057985041019699 / 2 ^ 47) 20 1003
            (get (methods ?st)) (post (methods ?st)) (other (methods ?st))
          # map (hostLine 1)
              (take (nat 5)
                (insertionSort (\<lambda>a b. req b < req a)
                   (snd (RangeHosts (heap ?st) (hostMap ?st) (Map.empty, []))))))"
    unfolding tick_eq [OF s t] r b
    by (simp add: initReporter_def f float64Div_1003_20)
  moreover have "(7057985041019699 / 2 ^ 47 :: real) \<noteq> 1003 / 20"
    and "(7057985041019699 / 2 ^ 47 :: real) < 1003 / 20"
    by simp_all
  ultimately show ?thesis by blast
qed

lemma take_drop_sorted:
  assumes "sorted_wrt (\<lambda>a b. req b \<le> req a) xs"
  shows "\<forall>e\<in>set (take n xs). \<forall>r\<in>set (drop n xs). req r \<le> req e"
proof -
  from assms have "sorted_wrt (\<lambda>a b. req b \<le> req a) (take n xs @ drop n xs)" by simp
  then show ?thesis
    unfolding sorted_wrt_append by blast
qed

lemma itemOf_fields:
  "host (itemOf hp snaps kv) = fst kv"
  "req (itemOf hp snaps kv) =
     requests (hp (snd kv)) - (case snaps (fst kv) of None \<Rightarrow> 0 | Some s \<Rightarrow> requests s)"
  "item.bytes (itemOf hp snaps kv) =
     hostStats.bytes (hp (snd kv))
       - (case snaps (fst kv) of None \<Rightarrow> 0 | Some s \<Rightarrow> hostStats.bytes s)"
  by (simp_all add: itemOf_def lookupPrev_def zeroHostStats_def Let_def split: option.splits)

text \<open>
  Claim C5. For a host map with one entry per key, a sorting function that meets the
  contract of \<^verbatim>\<open>sort.Slice\<close>, \<open>secs > 0\<close> and \<open>topN \<ge> 0\<close>. The interval deltas of an
  entry \<open>(k, p)\<close> of the host map are the counters of the object \<open>p\<close> minus the snapshot
  stored for \<open>k\<close> at the previous tick, or minus 0 when none is stored. The tick logs,
  after the statistics line, one host line for each entry of \<open>emitted\<close>, in that order,
  with the host, the request delta over \<open>secs\<close>, an average, and the two deltas. The
  entries of \<open>emitted\<close> are entries of the map, each at most once, all with a positive
  request delta; there are \<open>topN\<close> of them, or as many as the map has entries with a
  positive request delta when these are fewer; they are in descending order of request
  delta; no entry left out has a larger request delta than an emitted one, and an
  entry with a positive request delta is left out only when \<open>topN\<close> lines are logged; a
  host with request delta zero gets no line; and the new snapshot of every host of the
  map, whatever its delta, is its current pair of counters, all other snapshots staying
  as they were. Every state that the server reaches has one entry per key (\<open>shapeInv\<close>,
  proved for the reachable states below).
\<close>

theorem top_hosts_by_delta:
  assumes "distinct (map fst (hostMap st))" and "sortContract sortSlice"
    and "secs \<noteq> 0" and "0 \<le> topN"
  shows "let dreq = (\<lambda>(k, p). requests (heap st p)
                       - (case prevSnapshots rp k of None \<Rightarrow> 0 | Some s \<Rightarrow> requests s));
             dbytes = (\<lambda>(k, p). hostStats.bytes (heap st p)
                       - (case prevSnapshots rp k of None \<Rightarrow> 0 | Some s \<Rightarrow> hostStats.bytes s))
         in \<exists>rp' stats hostls emitted.
              tick sortSlice secs topN st rp = Inr (rp', stats # hostls)
            \<and> list_all2 (\<lambda>l kv. \<exists>a. l = HostLine (fst kv) (dreq kv div secs) a (dreq kv) (dbytes kv))
                 hostls emitted
            \<and> distinct emitted \<and> set emitted \<subseteq> set (hostMap st)
            \<and> (\<forall>kv\<in>set emitted. 0 < dreq kv)
            \<and> length emitted
                = min (nat topN) (length (filter (\<lambda>kv. 0 < dreq kv) (hostMap st)))
            \<and> sorted_wrt (\<lambda>kv kv'. dreq kv' \<le> dreq kv) emitted
            \<and> (\<forall>kv\<in>set (hostMap st) - set emitted. \<forall>kv'\<in>set emitted. dreq kv \<le> dreq kv')
            \<and> (\<forall>kv\<in>set (hostMap st) - set emitted. 0 < dreq kv \<longrightarrow> length emitted = nat topN)
            \<and> (\<forall>kv\<in>set (hostMap st). dreq kv = 0 \<longrightarrow> fst kv \<notin> fst ` set emitted)
            \<and> (\<forall>(k, p)\<in>set (hostMap st).
                  prevSnapshots rp' k =
                    Some \<lparr>requests = requests (heap st p), bytes = hostStats.bytes (heap st p)\<rparr>)
            \<and> (\<forall>k. k \<notin> fst ` set (hostMap st) \<longrightarrow> prevSnapshots rp' k = prevSnapshots rp k)"
proof -
  define dreq where "dreq = (\<lambda>kv :: string \<times> nat. requests (heap st (snd kv))
      - (case prevSnapshots rp (fst kv) of None \<Rightarrow> 0 | Some s \<Rightarrow> requests s))"
  define dbytes where "dbytes = (\<lambda>kv :: string \<times> nat. hostStats.bytes (heap st (snd kv))
      - (case prevSnapshots rp (fst kv) of None \<Rightarrow> 0 | Some s \<Rightarrow> hostStats.bytes s))"
  have eq1: "(\<lambda>(k, p). requests (heap st p)
                - (case prevSnapshots rp k of None \<Rightarrow> 0 | Some s \<Rightarrow> requests s)) = dreq"
    by (simp add: dreq_def fun_eq_iff split_beta)
  have eq2: "(\<lambda>(k, p). hostStats.bytes (heap st p)
                - (case prevSnapshots rp k of None \<Rightarrow> 0 | Some s \<Rightarrow> hostStats.bytes s)) = dbytes"
    by (simp add: dbytes_def fun_eq_iff split_beta)
  let ?io = "itemOf (heap st) (prevSnapshots rp)"
  let ?S = "sortSlice (\<lambda>a b. req b < req a) (candidates st rp)"
  let ?T = "take (nat topN) ?S"
  let ?snaps = "\<lambda>k. case map_of (hostMap st) k of Some p \<Rightarrow> Some (heap st p)
                    | None \<Rightarrow> prevSnapshots rp k"
  define entry where "entry = (\<lambda>it :: item. (host it, the (map_of (hostMap st) (host it))))"
  define emitted where "emitted = map entry ?T"
  have io: "host (?io kv) = fst kv" "req (?io kv) = dreq kv" "item.bytes (?io kv) = dbytes kv"
    for kv
    by (simp_all add: itemOf_fields dreq_def dbytes_def)
  have cands: "candidates st rp = map ?io (filter (\<lambda>kv. 0 < dreq kv) (hostMap st))"
    by (simp add: candidates_def io)
  from assms(2) strictWeakOrder_byReq
  have m: "mset ?S = mset (candidates st rp)"
    and "sorted_wrt (\<lambda>a b. \<not> req a < req b) ?S"
    unfolding sortContract_def by blast+
  then have srt: "sorted_wrt (\<lambda>a b. req b \<le> req a) ?S"
    by (simp add: not_less)
  have "set ?S = set (candidates st rp)"
    using m by (rule mset_eq_setD)
  also have "\<dots> = ?io ` {kv \<in> set (hostMap st). 0 < dreq kv}"
    by (simp add: cands)
  finally have setS: "set ?S = ?io ` {kv \<in> set (hostMap st). 0 < dreq kv}" .
  have ent: "entry (?io kv) = kv" if "kv \<in> set (hostMap st)" for kv
  proof -
    from that have "(fst kv, snd kv) \<in> set (hostMap st)" by simp
    then have "map_of (hostMap st) (fst kv) = Some (snd kv)"
      using assms(1) by (simp only: map_of_eq_Some_iff)
    then show ?thesis by (simp add: entry_def io)
  qed
  have inS: "\<exists>kv\<in>set (hostMap st). it = ?io kv \<and> 0 < dreq kv" if "it \<in> set ?S" for it
    using that unfolding setS by auto
  have inT: "\<exists>kv\<in>set (hostMap st). it = ?io kv \<and> 0 < dreq kv \<and> entry it = kv"
    if "it \<in> set ?T" for it
  proof -
    from that have "it \<in> set ?S" by (rule in_set_takeD)
    from inS [OF this] obtain kv where "kv \<in> set (hostMap st)" "it = ?io kv" "0 < dreq kv"
      by blast
    with ent [of kv] show ?thesis by auto
  qed
  have pos: "?io kv \<in> set ?S" if "kv \<in> set (hostMap st)" and "0 < dreq kv" for kv
    using that unfolding setS by simp
  have t: "tick sortSlice secs topN st rp =
     Inr (\<lparr>prevSnapshots = ?snaps, prevTotalReq = totalRequests st,
           prevTotalBytes = totalBytes st\<rparr>,
          StatsLine ((totalRequests st - prevTotalReq rp) div secs)
            ((totalBytes st - prevTotalBytes rp) div secs)
            (if 0 < totalRequests st - prevTotalReq rp
             then float64Div (float64 (unat (totalBytes st - prevTotalBytes rp)))
                    (float64 (unat (totalRequests st - prevTotalReq rp)))
             else 0)
            (totalRequests st) (totalBytes st)
            (get (methods st)) (post (methods st)) (other (methods st))
          # map (hostLine secs) ?T)"
    unfolding tick_eq [OF assms(3,4)] RangeHosts_candidates [OF assms(1)] by simp
  have 1: "list_all2 (\<lambda>l kv. \<exists>a. l = HostLine (fst kv) (dreq kv div secs) a (dreq kv) (dbytes kv))
             (map (hostLine secs) ?T) emitted"
  proof -
    have "\<exists>a. hostLine secs it =
            HostLine (fst (entry it)) (dreq (entry it) div secs) a (dreq (entry it))
              (dbytes (entry it))"
      if "it \<in> set ?T" for it
    proof -
      from inT [OF that] obtain kv where "it = ?io kv" and "entry it = kv" by blast
      then show ?thesis by (simp add: hostLine_def io)
    qed
    then show ?thesis
      unfolding emitted_def list_all2_map1 list_all2_map2 by (simp add: list_all2_same)
  qed
  have hostsT: "map fst emitted = map host ?T"
    by (simp add: emitted_def entry_def comp_def)
  have "map host (candidates st rp) = map fst (filter (\<lambda>kv. 0 < dreq kv) (hostMap st))"
    by (simp add: cands io comp_def)
  then have "distinct (map host (candidates st rp))"
    using assms(1) by (simp add: distinct_map_filter)
  moreover have "mset (map host ?S) = mset (map host (candidates st rp))"
    using m by (metis mset_map)
  ultimately have "distinct (map host ?S)"
    by (metis mset_eq_imp_distinct_iff)
  then have "distinct (take (nat topN) (map host ?S))"
    by (rule distinct_take)
  then have dk: "distinct (map fst emitted)"
    by (simp add: hostsT take_map)
  then have 2: "distinct emitted"
    by (simp add: distinct_map)
  have 3: "set emitted \<subseteq> set (hostMap st)"
    unfolding emitted_def using inT by auto
  have 4: "\<forall>kv\<in>set emitted. 0 < dreq kv"
    unfolding emitted_def using inT by auto
  have "length emitted = min (nat topN) (length ?S)"
    by (simp add: emitted_def min.commute)
  also have "length ?S = length (candidates st rp)"
    using m by (rule mset_eq_length)
  also have "\<dots> = length (filter (\<lambda>kv. 0 < dreq kv) (hostMap st))"
    by (simp add: cands)
  finally have 5: "length emitted
      = min (nat topN) (length (filter (\<lambda>kv. 0 < dreq kv) (hostMap st)))" .
  have srtT: "sorted_wrt (\<lambda>a b. req b \<le> req a) ?T"
    using srt by (rule sorted_wrt_take)
  have rqe: "dreq (entry it) = req it" if "it \<in> set ?T" for it
  proof -
    from inT [OF that] obtain kv where "it = ?io kv" and "entry it = kv" by blast
    then show ?thesis by (simp add: io)
  qed
  have 6: "sorted_wrt (\<lambda>kv kv'. dreq kv' \<le> dreq kv) emitted"
    unfolding emitted_def sorted_wrt_map
    using srtT by (rule sorted_wrt_mono_rel [rotated]) (simp add: rqe)
  have out: "?io kv \<in> set (drop (nat topN) ?S)"
    if "kv \<in> set (hostMap st)" and "kv \<notin> set emitted" and "0 < dreq kv" for kv
  proof -
    have "set ?S = set ?T \<union> set (drop (nat topN) ?S)"
      by (metis append_take_drop_id set_append)
    with pos [OF that(1,3)] have "?io kv \<in> set ?T \<union> set (drop (nat topN) ?S)" by simp
    moreover have "?io kv \<notin> set ?T"
    proof
      assume "?io kv \<in> set ?T"
      then have "entry (?io kv) \<in> set emitted" by (simp add: emitted_def)
      with ent [OF that(1)] that(2) show False by simp
    qed
    ultimately show ?thesis by blast
  qed
  have 7: "\<forall>kv\<in>set (hostMap st) - set emitted. \<forall>kv'\<in>set emitted. dreq kv \<le> dreq kv'"
  proof (intro ballI)
    fix kv kv'
    assume a: "kv \<in> set (hostMap st) - set emitted" and b: "kv' \<in> set emitted"
    from b obtain it where it: "it \<in> set ?T" and kv': "kv' = entry it"
      by (auto simp: emitted_def)
    show "dreq kv \<le> dreq kv'"
    proof (cases "dreq kv = 0")
      case True
      then show ?thesis by simp
    next
      case False
      then have "0 < dreq kv" by (simp add: word_neq_0_conv)
      with a have "?io kv \<in> set (drop (nat topN) ?S)" by (simp add: out)
      with take_drop_sorted [OF srt, of "nat topN"] it have "req (?io kv) \<le> req it" by blast
      then show ?thesis by (simp add: io kv' rqe [OF it])
    qed
  qed
  have 8: "\<forall>kv\<in>set (hostMap st) - set emitted. 0 < dreq kv \<longrightarrow> length emitted = nat topN"
  proof (intro ballI impI)
    fix kv
    assume a: "kv \<in> set (hostMap st) - set emitted" and b: "0 < dreq kv"
    then have "?io kv \<in> set (drop (nat topN) ?S)" by (simp add: out)
    then have "drop (nat topN) ?S \<noteq> []" by auto
    then have "nat topN < length ?S" by simp
    then show "length emitted = nat topN" by (simp add: emitted_def)
  qed
  have 9: "\<forall>kv\<in>set (hostMap st). dreq kv = 0 \<longrightarrow> fst kv \<notin> fst ` set emitted"
  proof (intro ballI impI notI)
    fix kv
    assume a: "kv \<in> set (hostMap st)" and z: "dreq kv = 0" and "fst kv \<in> fst ` set emitted"
    then obtain kv' where e: "kv' \<in> set emitted" and f: "fst kv' = fst kv" by auto
    from e 3 have "kv' \<in> set (hostMap st)" by blast
    with a f assms(1) have "kv' = kv"
      by (metis eq_key_imp_eq_value prod.collapse)
    with e 4 z show False by auto
  qed
  have 10: "\<forall>(k, p)\<in>set (hostMap st).
              ?snaps k = Some \<lparr>requests = requests (heap st p), bytes = hostStats.bytes (heap st p)\<rparr>"
    using assms(1) by auto
  have 11: "\<forall>k. k \<notin> fst ` set (hostMap st) \<longrightarrow> ?snaps k = prevSnapshots rp k"
    by (auto simp: map_of_eq_None_iff [THEN iffD2])
  have "tick sortSlice secs topN st rp =
          Inr (\<lparr>prevSnapshots = ?snaps, prevTotalReq = totalRequests st,
                prevTotalBytes = totalBytes st\<rparr>,
               StatsLine ((totalRequests st - prevTotalReq rp) div secs)
                 ((totalBytes st - prevTotalBytes rp) div secs)
                 (if 0 < totalRequests st - prevTotalReq rp
                  then float64Div (float64 (unat (totalBytes st - prevTotalBytes rp)))
                         (float64 (unat (totalRequests st - prevTotalReq rp)))
                  else 0)
                 (totalRequests st) (totalBytes st)
                 (get (methods st)) (post (methods st)) (other (methods st))
               # map (hostLine secs) ?T)
         \<and> list_all2 (\<lambda>l kv. \<exists>a. l = HostLine (fst kv) (dreq kv div secs) a (dreq kv) (dbytes kv))
              (map (hostLine secs) ?T) emitted
         \<and> distinct emitted \<and> set emitted \<subseteq> set (hostMap st)
         \<and> (\<forall>kv\<in>set emitted. 0 < dreq kv)
         \<and> length emitted
             = min (nat topN) (length (filter (\<lambda>kv. 0 < dreq kv) (hostMap st)))
         \<and> sorted_wrt (\<lambda>kv kv'. dreq kv' \<le> dreq kv) emitted
         \<and> (\<forall>kv\<in>set (hostMap st) - set emitted. \<forall>kv'\<in>set emitted. dreq kv \<le> dreq kv')
         \<and> (\<forall>kv\<in>set (hostMap st) - set emitted. 0 < dreq kv \<longrightarrow> length emitted = nat topN)
         \<and> (\<forall>kv\<in>set (hostMap st). dreq kv = 0 \<longrightarrow> fst kv \<notin> fst ` set emitted)
         \<and> (\<forall>(k, p)\<in>set (hostMap st).
               prevSnapshots \<lparr>prevSnapshots = ?snaps, prevTotalReq = totalRequests st,
                 prevTotalBytes = totalBytes st\<rparr> k =
                 Some \<lparr>requests = requests (heap st p), bytes = hostStats.bytes (heap st p)\<rparr>)
         \<and> (\<forall>k. k \<notin> fst ` set (hostMap st) \<longrightarrow>
               prevSnapshots \<lparr>prevSnapshots = ?snaps, prevTotalReq = totalRequests st,
                 prevTotalBytes = totalBytes st\<rparr> k = prevSnapshots rp k)"
    using t 1 2 3 4 5 6 7 8 9 10 11 by (intro conjI) simp_all
  then show ?thesis
    unfolding Let_def eq1 eq2 by - ((rule exI)+, assumption)
qed

lemma quotient_eval:
  "float64Div (float64 3000) (float64 50) = 60"
  "float64Div (float64 720) (float64 12) = 60"
  "float64Div (float64 600) (float64 10) = 60"
  "float64Div (float64 480) (float64 8) = 60"
  "float64Div (float64 420) (float64 7) = 60"
  "float64Div (float64 360) (float64 6) = 60"
  "float64Div (float64 240) (float64 4) = 60"
  "float64Div (float64 180) (float64 3) = 60"
  by (simp_all add: quotient_exact)

lemma tick_eightHosts:
  "\<exists>rp'. tick insertionSort 2 5 eightHosts earlierReporter =
     Inr (rp', [StatsLine 25 1500 60 150 8000 100 40 10,
                HostLine ''b.test'' 6 60 12 720, HostLine ''d.test'' 5 60 10 600,
                HostLine ''e.test'' 4 60 8 480, HostLine ''f.test'' 3 60 7 420,
                HostLine ''g.test'' 3 60 6 360])"
  by (simp add: tick_def eightHosts_def earlierReporter_def visitHost_def lookupPrev_def
      zeroHostStats_def insertionSort_def truncateTop_def udiv_def quotient_eval Let_def)

theorem top_hosts_by_delta_witness:
  "\<exists>rp'. tick insertionSort 2 5 eightHosts earlierReporter =
     Inr (rp', [StatsLine 25 1500 60 150 8000 100 40 10,
                HostLine ''b.test'' 6 60 12 720, HostLine ''d.test'' 5 60 10 600,
                HostLine ''e.test'' 4 60 8 480, HostLine ''f.test'' 3 60 7 420,
                HostLine ''g.test'' 3 60 6 360])
     \<and> prevSnapshots rp' ''idle.test'' = Some \<lparr>requests = 80, bytes = 4000\<rparr>
     \<and> prevSnapshots rp' ''b.test'' = Some \<lparr>requests = 32, bytes = 1720\<rparr>
     \<and> prevSnapshots rp' ''c.test'' = Some \<lparr>requests = 3, bytes = 180\<rparr>
     \<and> prevSnapshots rp' ''other.test'' = None"
proof -
  have d: "distinct (map fst (hostMap eightHosts))" by (simp add: eightHosts_def)
  have s: "(2::uint64) \<noteq> 0" and t: "(0::int) \<le> 5" by simp_all
  from top_hosts_by_delta [OF d sortContract_insertionSort s t, where rp = earlierReporter]
  obtain rp' stats hostls where
    1: "tick insertionSort 2 5 eightHosts earlierReporter = Inr (rp', stats # hostls)"
    and 2: "\<forall>(k, p)\<in>set (hostMap eightHosts).
              prevSnapshots rp' k =
                Some \<lparr>requests = requests (heap eightHosts p),
                      bytes = hostStats.bytes (heap eightHosts p)\<rparr>"
    and 3: "\<forall>k. k \<notin> fst ` set (hostMap eightHosts) \<longrightarrow>
              prevSnapshots rp' k = prevSnapshots earlierReporter k"
    unfolding Let_def by blast
  from tick_eightHosts 1 have 4: "tick insertionSort 2 5 eightHosts earlierReporter =
     Inr (rp', [StatsLine 25 1500 60 150 8000 100 40 10,
                HostLine ''b.test'' 6 60 12 720, HostLine ''d.test'' 5 60 10 600,
                HostLine ''e.test'' 4 60 8 480, HostLine ''f.test'' 3 60 7 420,
                HostLine ''g.test'' 3 60 6 360])"
    by auto
  have mem: "(''idle.test'', 0) \<in> set (hostMap eightHosts)"
    "(''b.test'', 2) \<in> set (hostMap eightHosts)" "(''c.test'', 3) \<in> set (hostMap eightHosts)"
    and no: "''other.test'' \<notin> fst ` set (hostMap eightHosts)"
    by (simp_all add: eightHosts_def)
  from 2 mem(1) have "prevSnapshots rp' ''idle.test'' =
      Some \<lparr>requests = requests (heap eightHosts 0), bytes = hostStats.bytes (heap eightHosts 0)\<rparr>"
    by blast
  then have 5: "prevSnapshots rp' ''idle.test'' = Some \<lparr>requests = 80, bytes = 4000\<rparr>"
    by (simp add: eightHosts_def)
  from 2 mem(2) have "prevSnapshots rp' ''b.test'' =
      Some \<lparr>requests = requests (heap eightHosts 2), bytes = hostStats.bytes (heap eightHosts 2)\<rparr>"
    by blast
  then have 6: "prevSnapshots rp' ''b.test'' = Some \<lparr>requests = 32, bytes = 1720\<rparr>"
    by (simp add: eightHosts_def)
  from 2 mem(3) have "prevSnapshots rp' ''c.test'' =
      Some \<lparr>requests = requests (heap eightHosts 3), bytes = hostStats.bytes (heap eightHosts 3)\<rparr>"
    by blast
  then have 7: "prevSnapshots rp' ''c.test'' = Some \<lparr>requests = 3, bytes = 180\<rparr>"
    by (simp add: eightHosts_def)
  from 3 no have "prevSnapshots rp' ''other.test'' = prevSnapshots earlierReporter ''other.test''"
    by blast
  then have 8: "prevSnapshots rp' ''other.test'' = None"
    by (simp add: earlierReporter_def)
  from 4 5 6 7 8 show ?thesis by blast
qed


section \<open>Counters over time\<close>

lemma unat_add_le: "unat (x + y :: uint64) \<le> unat x + unat y"
  by (simp add: unat_word_ariths)

lemma unat_add_le_bound:
  assumes "unat (x :: uint64) \<le> n"
  shows "unat (x + y) \<le> n + unat y"
  using assms unat_add_le [of x y] by simp

lemma unat_inc_le_bound:
  assumes "unat (x :: uint64) \<le> n"
  shows "unat (x + 1) \<le> Suc n"
  using unat_add_le_bound [OF assms, of 1] by simp

lemma bounded_init: "bounded 0 0 initRegistry"
  by (simp add: bounded_def initRegistry_def zeroHostStats_def)

lemma countMethod_bounded:
  assumes "unat (get ms) \<le> n" "unat (post ms) \<le> n" "unat (other ms) \<le> n"
  shows "unat (get (countMethod m ms)) \<le> Suc n \<and> unat (post (countMethod m ms)) \<le> Suc n
       \<and> unat (other (countMethod m ms)) \<le> Suc n"
  using assms by (simp add: countMethod_def unat_inc_le_bound le_SucI)

lemma bounded_h:
  assumes "bounded n b st"
  shows "bounded (Suc n) (b + unat (reqSize ctx)) (fst (h u ctx st))"
proof (cases "Load st (hostKey u (Host ctx))")
  case None
  from assms have m: "unat (get (methods st)) \<le> n" "unat (post (methods st)) \<le> n"
    "unat (other (methods st)) \<le> n" by (simp_all add: bounded_def)
  from assms have hp: "\<And>p. unat (requests (heap st p)) \<le> n"
    "\<And>p. unat (hostStats.bytes (heap st p)) \<le> b" by (simp_all add: bounded_def)
  from assms have wf: "\<forall>kv\<in>set (hostMap st). snd kv < heapNext st" by (simp add: bounded_def)
  from assms have t: "unat (totalRequests st) \<le> n" "unat (totalBytes st) \<le> b"
    by (simp_all add: bounded_def)
  show ?thesis
    unfolding h_absent [OF None] bounded_def
    using countMethod_bounded [OF m, of "Method ctx"] hp wf t
    by (auto simp: unat_inc_le_bound unat_add_le_bound le_SucI trans_le_add1 less_SucI)
next
  case (Some v)
  from assms have m: "unat (get (methods st)) \<le> n" "unat (post (methods st)) \<le> n"
    "unat (other (methods st)) \<le> n" by (simp_all add: bounded_def)
  from assms have hp: "\<And>p. unat (requests (heap st p)) \<le> n"
    "\<And>p. unat (hostStats.bytes (heap st p)) \<le> b" by (simp_all add: bounded_def)
  from assms have wf: "\<forall>kv\<in>set (hostMap st). snd kv < heapNext st" by (simp add: bounded_def)
  from assms have t: "unat (totalRequests st) \<le> n" "unat (totalBytes st) \<le> b"
    by (simp_all add: bounded_def)
  show ?thesis
    unfolding h_present [OF Some] bounded_def
    using countMethod_bounded [OF m, of "Method ctx"] hp wf t
    by (auto simp: unat_inc_le_bound unat_add_le_bound le_SucI trans_le_add1)
qed

lemma bounded_serve:
  assumes "bounded n b st"
  shows "bounded (n + length ctxs) (b + sum_list (map (\<lambda>c. unat (reqSize c)) ctxs))
           (serve u ctxs st)"
  using assms
proof (induction ctxs arbitrary: n b st)
  case Nil
  then show ?case by simp
next
  case (Cons c ctxs)
  from Cons.IH [OF bounded_h [OF Cons.prems, of c u]] show ?case
    by (simp add: add.assoc)
qed

lemma word_le_add:
  assumes "unat (x :: uint64) + unat y < 2 ^ 64"
  shows "x \<le> x + y"
  using assms by (simp add: no_olen_add_nat)

lemma word_le_add_bound:
  assumes "unat (x :: uint64) \<le> b" and "b + unat y < 2 ^ 64"
  shows "x \<le> x + y"
  using assms by (intro word_le_add) simp

lemma word_le_inc_bound:
  assumes "unat (x :: uint64) \<le> n" and "Suc n < 2 ^ 64"
  shows "x \<le> x + 1"
  using assms by (intro word_le_add) simp

lemma countMethod_le:
  assumes "unat (get ms) \<le> n" "unat (post ms) \<le> n" "unat (other ms) \<le> n" "Suc n < 2 ^ 64"
  shows "get ms \<le> get (countMethod m ms) \<and> post ms \<le> post (countMethod m ms)
       \<and> other ms \<le> other (countMethod m ms)"
  using assms by (simp add: countMethod_def word_le_inc_bound)

lemma countersLe_h:
  assumes "bounded n b st" and n: "Suc n < 2 ^ 64" and b: "b + unat (reqSize ctx) < 2 ^ 64"
  shows "countersLe st (fst (h u ctx st))"
proof -
  from assms(1) have m: "unat (get (methods st)) \<le> n" "unat (post (methods st)) \<le> n"
    "unat (other (methods st)) \<le> n" by (simp_all add: bounded_def)
  from assms(1) have hp: "\<And>p. unat (requests (heap st p)) \<le> n"
    "\<And>p. unat (hostStats.bytes (heap st p)) \<le> b" by (simp_all add: bounded_def)
  from assms(1) have wf: "\<forall>kv\<in>set (hostMap st). snd kv < heapNext st" by (simp add: bounded_def)
  from assms(1) have t: "unat (totalRequests st) \<le> n" "unat (totalBytes st) \<le> b"
    by (simp_all add: bounded_def)
  note tot = word_le_inc_bound [OF t(1) n] word_le_add_bound [OF t(2) b]
  note mt = countMethod_le [OF m n, of "Method ctx"]
  show ?thesis
  proof (cases "Load st (hostKey u (Host ctx))")
    case None
    have "p \<noteq> heapNext st" if "Load st k = Some p" for k p
    proof -
      from that have "(k, p) \<in> set (hostMap st)" by (simp add: Load_def map_of_SomeD)
      with wf show ?thesis by auto
    qed
    moreover have "Load (fst (h u ctx st)) k = Some p" if "Load st k = Some p" for k p
      using that unfolding h_absent [OF None] by (simp add: Load_def map_add_def)
    ultimately show ?thesis
      unfolding countersLe_def using tot mt by (simp add: h_absent [OF None])
  next
    case (Some v)
    have "Load (fst (h u ctx st)) k = Load st k" for k
      unfolding h_present [OF Some] by (simp add: Load_def)
    then show ?thesis
      unfolding countersLe_def using tot mt
      by (simp add: h_present [OF Some] word_le_inc_bound [OF hp(1) n]
          word_le_add_bound [OF hp(2) b])
  qed
qed

lemma countersLe_refl: "countersLe st st"
  by (simp add: countersLe_def)

lemma countersLe_trans:
  assumes "countersLe a b" and "countersLe b c"
  shows "countersLe a c"
  using assms unfolding countersLe_def by (meson order_trans)

lemma countersLe_serve:
  assumes "bounded n b st" and "n + length later < 2 ^ 64"
    and "b + sum_list (map (\<lambda>c. unat (reqSize c)) later) < 2 ^ 64"
  shows "countersLe st (serve u later st)"
  using assms
proof (induction later arbitrary: n b st)
  case Nil
  then show ?case by (simp add: countersLe_refl)
next
  case (Cons c later)
  from Cons.prems have 1: "countersLe st (fst (h u c st))"
    by (intro countersLe_h [of n b]) simp_all
  from Cons.prems have "countersLe (fst (h u c st)) (serve u later (fst (h u c st)))"
    by (intro Cons.IH [OF bounded_h [OF Cons.prems(1)]]) (simp_all add: add.assoc)
  with 1 show ?case
    by (simp add: countersLe_trans)
qed

lemma sizeNat_le_total:
  assumes "c \<in> set ctxs"
  shows "sizeNat c \<le> totalSizeNat ctxs"
  using assms unfolding totalSizeNat_def by (simp add: member_le_sum_list)

lemma unat_reqSize:
  assumes "sizeNat c < 2 ^ 64"
  shows "unat (reqSize c) = sizeNat c"
  using assms unfolding reqSize_def sizeNat_def by (rule unat_reqSizeOf)

lemma eleven_le_total: "11 * length ctxs \<le> totalSizeNat ctxs"
  by (induction ctxs) (simp_all add: totalSizeNat_def sizeNat_def)

lemma unat_totals:
  assumes "totalSizeNat ctxs < 2 ^ 64"
  shows "unat (totalBytes (serve u ctxs initRegistry)) = totalSizeNat ctxs"
    and "unat (totalRequests (serve u ctxs initRegistry)) = length ctxs"
proof -
  have "unat (reqSize c) = sizeNat c" if "c \<in> set ctxs" for c
    using sizeNat_le_total [OF that] assms by (intro unat_reqSize) simp
  then have eq: "map unat (map reqSize ctxs) = map sizeNat ctxs"
    by simp
  have "sum_list (map unat (map reqSize ctxs)) < 2 ^ 64"
    unfolding eq using assms by (simp add: totalSizeNat_def)
  from unat_sum_list [OF this]
  have "unat (sum_list (map reqSize ctxs)) = totalSizeNat ctxs"
    unfolding eq by (simp add: totalSizeNat_def)
  then show "unat (totalBytes (serve u ctxs initRegistry)) = totalSizeNat ctxs"
    by (simp add: serve_totalBytes initRegistry_def)
  from eleven_le_total [of ctxs] assms have "length ctxs < 2 ^ 64" by simp
  then show "unat (totalRequests (serve u ctxs initRegistry)) = length ctxs"
    by (simp add: serve_totalRequests initRegistry_def unat_word_of_nat_64)
qed

section \<open>Concurrent requests\<close>

lemma shapeInv_start: "shapeInv initRegistry []"
  by (simp add: shapeInv_def initRegistry_def)

lemma shapeInv_arrive:
  assumes "shapeInv st ws"
  shows "shapeInv st (ws @ [spawn u ctx])"
  using assms unfolding shapeInv_def
  by (auto simp: nth_append spawn_def less_Suc_eq)

lemma shapeInv_frame:
  assumes "shapeInv st ws" and "i < length ws"
    and "hostMap st' = hostMap st" and "heapNext st' = heapNext st"
    and "wnewHS w' = wnewHS (ws ! i)" and "wpc w' \<noteq> AtLoadOrStore"
  shows "shapeInv st' (ws[i := w'])"
  using assms unfolding shapeInv_def
  by (auto simp: nth_list_update)

lemma shapeInv_NewHS:
  assumes "shapeInv st ws" and "i < length ws" and "wpc (ws ! i) = AtNewHS"
    and "hstep st (ws ! i) = (st', w')"
  shows "shapeInv st' (ws[i := w'])"
proof -
  from assms(3,4) have st': "hostMap st' = hostMap st" "heapNext st' = Suc (heapNext st)"
    and w': "wnewHS w' = heapNext st" "wpc w' = AtLoadOrStore"
    by (auto simp: hstep_def newHostStats_def)
  from assms(1) have fresh: "heapNext st \<notin> snd ` set (hostMap st)"
    unfolding shapeInv_def by auto
  show ?thesis
    using assms(1,2) fresh unfolding shapeInv_def st' 
    by (auto simp: nth_list_update w' less_Suc_eq)
qed

lemma shapeInv_LoadOrStore:
  assumes "shapeInv st ws" and "i < length ws" and "wpc (ws ! i) = AtLoadOrStore"
    and "hstep st (ws ! i) = (st', w')"
  shows "shapeInv st' (ws[i := w'])"
proof (cases "map_of (hostMap st) (whost (ws ! i))")
  case None
  with assms(3,4) have st': "hostMap st' = hostMap st @ [(whost (ws ! i), wnewHS (ws ! i))]"
    "heapNext st' = heapNext st"
    and w': "wpc w' = AtAddHostRequests"
    by (auto simp: hstep_def LoadOrStore_def)
  from None have k: "whost (ws ! i) \<notin> fst ` set (hostMap st)"
    by (simp add: map_of_eq_None_iff)
  show ?thesis
    using assms(1,2,3) k unfolding shapeInv_def st'
    by (auto simp: nth_list_update w')
next
  case (Some a)
  with assms(3,4) have st': "st' = st" and w': "wpc w' = AtAddHostRequests"
    by (auto simp: hstep_def LoadOrStore_def)
  show ?thesis
    using assms(1,2) unfolding shapeInv_def st'
    by (auto simp: nth_list_update w')
qed

lemma shapeInv_step:
  assumes "shapeInv st ws" and "i < length ws" and "hstep st (ws ! i) = (st', w')"
  shows "shapeInv st' (ws[i := w'])"
proof (cases "wpc (ws ! i)")
  case AtNewHS
  with assms show ?thesis by (simp add: shapeInv_NewHS)
next
  case AtLoadOrStore
  with assms show ?thesis by (simp add: shapeInv_LoadOrStore)
next
  case AtLoad
  with assms(3) show ?thesis
    by (intro shapeInv_frame [OF assms(1,2)])
       (auto simp: hstep_def split: option.splits)
qed (use assms(3) in \<open>intro shapeInv_frame [OF assms(1,2)];
       auto simp: hstep_def addTotalBytes_def addTotalRequests_def addHostRequests_def
         addHostBytes_def\<close>)+

lemma reachable_shapeInv:
  assumes "reachable u st ws"
  shows "shapeInv st ws"
  using assms
  by (induction rule: reachable.induct)
     (simp_all add: shapeInv_start shapeInv_arrive shapeInv_step)

lemma holdInv_start: "holdInv initRegistry []"
  by (simp add: holdInv_def)

lemma holdInv_arrive:
  assumes "holdInv st ws"
  shows "holdInv st (ws @ [spawn u ctx])"
  using assms unfolding holdInv_def
  by (auto simp: nth_append spawn_def less_Suc_eq)

lemma holdInv_frame:
  assumes "holdInv st ws" and "i < length ws"
    and "hostMap st' = hostMap st"
    and "5 \<le> rank (wpc w') \<Longrightarrow>
           5 \<le> rank (wpc (ws ! i)) \<and> whost w' = whost (ws ! i) \<and> wv w' = wv (ws ! i)"
  shows "holdInv st' (ws[i := w'])"
  using assms unfolding holdInv_def Load_def
  by (auto simp: nth_list_update)

lemma holdInv_Load:
  assumes "holdInv st ws" and "i < length ws" and "wpc (ws ! i) = AtLoad"
    and "hstep st (ws ! i) = (st', w')"
  shows "holdInv st' (ws[i := w'])"
proof (cases "Load st (whost (ws ! i))")
  case None
  with assms(3,4) have "st' = st" "wpc w' = AtNewHS" by (auto simp: hstep_def)
  with assms(1,2) show ?thesis
    unfolding holdInv_def by (auto simp: nth_list_update)
next
  case (Some v)
  with assms(3,4) have "st' = st" "wv w' = v" "whost w' = whost (ws ! i)"
    by (auto simp: hstep_def)
  with assms(1,2) Some show ?thesis
    unfolding holdInv_def by (auto simp: nth_list_update)
qed

lemma holdInv_LoadOrStore:
  assumes "holdInv st ws" and "i < length ws" and "wpc (ws ! i) = AtLoadOrStore"
    and "hstep st (ws ! i) = (st', w')"
  shows "holdInv st' (ws[i := w'])"
proof (cases "map_of (hostMap st) (whost (ws ! i))")
  case None
  with assms(3,4) have st': "hostMap st' = hostMap st @ [(whost (ws ! i), wnewHS (ws ! i))]"
    and w': "wv w' = wnewHS (ws ! i)" "whost w' = whost (ws ! i)"
    by (auto simp: hstep_def LoadOrStore_def)
  show ?thesis
    using assms(1,2) None unfolding holdInv_def Load_def st'
    by (auto simp: nth_list_update w' map_add_def)
next
  case (Some a)
  with assms(3,4) have "st' = st" "wv w' = a" "whost w' = whost (ws ! i)"
    by (auto simp: hstep_def LoadOrStore_def)
  with assms(1,2) Some show ?thesis
    unfolding holdInv_def Load_def by (auto simp: nth_list_update)
qed

lemma holdInv_step:
  assumes "holdInv st ws" and "i < length ws" and "hstep st (ws ! i) = (st', w')"
  shows "holdInv st' (ws[i := w'])"
proof (cases "wpc (ws ! i)")
  case AtLoad
  with assms show ?thesis by (simp add: holdInv_Load)
next
  case AtLoadOrStore
  with assms show ?thesis by (simp add: holdInv_LoadOrStore)
next
  case AtNewHS
  with assms(3) show ?thesis
    by (intro holdInv_frame [OF assms(1,2)])
       (auto simp: hstep_def newHostStats_def)
qed (use assms(3) in \<open>intro holdInv_frame [OF assms(1,2)];
       auto simp: hstep_def addTotalBytes_def addTotalRequests_def addHostRequests_def
         addHostBytes_def\<close>)+

lemma reachable_holdInv:
  assumes "reachable u st ws"
  shows "holdInv st ws"
  using assms
  by (induction rule: reachable.induct)
     (simp_all add: holdInv_start holdInv_arrive holdInv_step)

lemma sum_list_map_update:
  fixes f :: "'a \<Rightarrow> uint64"
  assumes "i < length xs"
  shows "sum_list (map f (xs[i := y])) = sum_list (map f xs) + f y - f (xs ! i)"
  using assms
proof (induction xs arbitrary: i)
  case Nil
  then show ?case by simp
next
  case (Cons x xs)
  then show ?case by (cases i) simp_all
qed

lemma reqCount_update:
  assumes "i < length ws"
  shows "reqCount k (ws[i := w']) =
           reqCount k ws + (if whost w' = k \<and> 6 \<le> rank (wpc w') then 1 else 0)
             - (if whost (ws ! i) = k \<and> 6 \<le> rank (wpc (ws ! i)) then 1 else 0)"
  unfolding reqCount_def by (rule sum_list_map_update [OF assms])

lemma byteCount_update:
  assumes "i < length ws"
  shows "byteCount k (ws[i := w']) =
           byteCount k ws + (if whost w' = k \<and> 7 \<le> rank (wpc w') then wreqSize w' else 0)
             - (if whost (ws ! i) = k \<and> 7 \<le> rank (wpc (ws ! i)) then wreqSize (ws ! i) else 0)"
  unfolding byteCount_def by (rule sum_list_map_update [OF assms])

lemma count_arrive:
  "reqCount k (ws @ [spawn u ctx]) = reqCount k ws"
  "byteCount k (ws @ [spawn u ctx]) = byteCount k ws"
  by (simp_all add: reqCount_def byteCount_def spawn_def)

lemma sum_list_zero:
  assumes "\<forall>j<length xs. f (xs ! j) = (0::uint64)"
  shows "sum_list (map f xs) = 0"
proof -
  have "\<forall>x\<in>set xs. f x = 0"
    using assms by (auto simp: in_set_conv_nth)
  then show ?thesis by (induction xs) simp_all
qed

lemma countInv_start: "countInv initRegistry []"
  by (simp add: countInv_def initRegistry_def)

lemma countInv_arrive:
  assumes "countInv st ws"
  shows "countInv st (ws @ [spawn u ctx])"
  using assms unfolding countInv_def count_arrive
  by (auto simp: nth_append spawn_def less_Suc_eq)

text \<open>A step that neither touches the heap nor the host map, nor moves the worker across
  one of the two counting points or into the state before the store.\<close>

lemma countInv_frame:
  assumes "countInv st ws" and "i < length ws"
    and "hostMap st' = hostMap st" and "heap st' = heap st"
    and "whost w' = whost (ws ! i)" and "wreqSize w' = wreqSize (ws ! i)"
    and "wpc w' \<noteq> AtLoadOrStore"
    and "6 \<le> rank (wpc w') \<longleftrightarrow> 6 \<le> rank (wpc (ws ! i))"
    and "7 \<le> rank (wpc w') \<longleftrightarrow> 7 \<le> rank (wpc (ws ! i))"
  shows "countInv st' (ws[i := w'])"
proof -
  have "reqCount k (ws[i := w']) = reqCount k ws" for k
    using assms(5,8) by (simp add: reqCount_update [OF assms(2)])
  moreover have "byteCount k (ws[i := w']) = byteCount k ws" for k
    using assms(5,6,9) by (simp add: byteCount_update [OF assms(2)])
  ultimately show ?thesis
    using assms(1,2,3,4,7) unfolding countInv_def
    by (auto simp: nth_list_update)
qed

lemma countInv_NewHS:
  assumes "countInv st ws" and "shapeInv st ws" and "i < length ws"
    and "wpc (ws ! i) = AtNewHS" and "hstep st (ws ! i) = (st', w')"
  shows "countInv st' (ws[i := w'])"
proof -
  from assms(4,5) have st': "hostMap st' = hostMap st"
    "heap st' = (heap st)(heapNext st := zeroHostStats)"
    and w': "wnewHS w' = heapNext st" "wpc w' = AtLoadOrStore" "whost w' = whost (ws ! i)"
      "wreqSize w' = wreqSize (ws ! i)"
    by (auto simp: hstep_def newHostStats_def)
  have r: "reqCount k (ws[i := w']) = reqCount k ws" for k
    using assms(4) w' by (simp add: reqCount_update [OF assms(3)])
  have b: "byteCount k (ws[i := w']) = byteCount k ws" for k
    using assms(4) w' by (simp add: byteCount_update [OF assms(3)])
  from assms(2) have old: "\<forall>kv\<in>set (hostMap st). snd kv \<noteq> heapNext st"
    unfolding shapeInv_def by auto
  from assms(2) have pend: "\<forall>j<length ws. wpc (ws ! j) = AtLoadOrStore \<longrightarrow>
      wnewHS (ws ! j) \<noteq> heapNext st"
    unfolding shapeInv_def by auto
  show ?thesis
    using assms(1,3) old pend unfolding countInv_def st' r b
    by (auto simp: nth_list_update w')
qed

lemma countInv_LoadOrStore:
  assumes "countInv st ws" and "holdInv st ws" and "i < length ws"
    and "wpc (ws ! i) = AtLoadOrStore" and "hstep st (ws ! i) = (st', w')"
  shows "countInv st' (ws[i := w'])"
proof -
  from assms(4,5) have w': "wpc w' = AtAddHostRequests" "whost w' = whost (ws ! i)"
    "wreqSize w' = wreqSize (ws ! i)" and hp: "heap st' = heap st"
    by (auto simp: hstep_def LoadOrStore_def split: option.splits)
  have r: "reqCount k (ws[i := w']) = reqCount k ws" for k
    using assms(4) w' by (simp add: reqCount_update [OF assms(3)])
  have b: "byteCount k (ws[i := w']) = byteCount k ws" for k
    using assms(4) w' by (simp add: byteCount_update [OF assms(3)])
  show ?thesis
  proof (cases "map_of (hostMap st) (whost (ws ! i))")
    case None
    with assms(4,5) have st': "hostMap st' = hostMap st @ [(whost (ws ! i), wnewHS (ws ! i))]"
      by (auto simp: hstep_def LoadOrStore_def)
    from assms(2) None have low: "\<forall>j<length ws. whost (ws ! j) = whost (ws ! i) \<longrightarrow>
        \<not> 5 \<le> rank (wpc (ws ! j))"
      unfolding holdInv_def Load_def by auto
    have "reqCount (whost (ws ! i)) ws = 0"
      unfolding reqCount_def using low by (intro sum_list_zero) auto
    moreover have "byteCount (whost (ws ! i)) ws = 0"
      unfolding byteCount_def using low by (intro sum_list_zero) auto
    moreover from assms(1,3,4) have "heap st (wnewHS (ws ! i)) = zeroHostStats"
      unfolding countInv_def by auto
    ultimately show ?thesis
      using assms(1,3) unfolding countInv_def st' hp r b
      by (auto simp: nth_list_update w' zeroHostStats_def)
  next
    case (Some a)
    with assms(4,5) have st': "hostMap st' = hostMap st"
      by (auto simp: hstep_def LoadOrStore_def)
    show ?thesis
      using assms(1,3) unfolding countInv_def st' hp r b
      by (auto simp: nth_list_update w')
  qed
qed

lemma same_pointer_same_key:
  assumes "distinct (map snd xs)" and "(a, p) \<in> set xs" and "(b, p) \<in> set xs"
  shows "a = b"
  using assms
proof (induction xs)
  case Nil
  then show ?case by simp
next
  case (Cons x xs)
  then show ?case by (cases x) force
qed

lemma entry_cases:
  assumes "shapeInv st ws" and "holdInv st ws" and "i < length ws"
    and "5 \<le> rank (wpc (ws ! i))" and "kv \<in> set (hostMap st)"
  shows "(snd kv = wv (ws ! i)) = (fst kv = whost (ws ! i))"
proof -
  from assms(2,3,4) have "(whost (ws ! i), wv (ws ! i)) \<in> set (hostMap st)"
    unfolding holdInv_def Load_def by (auto dest: map_of_SomeD)
  moreover from assms(1) have "distinct (map fst (hostMap st))" "distinct (map snd (hostMap st))"
    unfolding shapeInv_def by simp_all
  ultimately show ?thesis
    using assms(5) same_pointer_same_key [of "hostMap st" "fst kv" "snd kv" "whost (ws ! i)"]
      eq_key_imp_eq_value [of "hostMap st" "fst kv" "snd kv" "wv (ws ! i)"]
    by auto
qed

lemma pending_not_stored:
  assumes "shapeInv st ws" and "holdInv st ws" and "i < length ws"
    and "5 \<le> rank (wpc (ws ! i))" and "j < length ws" and "wpc (ws ! j) = AtLoadOrStore"
  shows "wnewHS (ws ! j) \<noteq> wv (ws ! i)"
proof -
  from assms(2,3,4) have "(whost (ws ! i), wv (ws ! i)) \<in> set (hostMap st)"
    unfolding holdInv_def Load_def by (auto dest: map_of_SomeD)
  then have "wv (ws ! i) \<in> snd ` set (hostMap st)" by force
  moreover from assms(1,5,6) have "wnewHS (ws ! j) \<notin> snd ` set (hostMap st)"
    unfolding shapeInv_def by simp
  ultimately show ?thesis by metis
qed

lemma countInv_AddHostRequests:
  assumes "countInv st ws" and "shapeInv st ws" and "holdInv st ws" and "i < length ws"
    and "wpc (ws ! i) = AtAddHostRequests" and "hstep st (ws ! i) = (st', w')"
  shows "countInv st' (ws[i := w'])"
proof -
  let ?v = "wv (ws ! i)" and ?k = "whost (ws ! i)"
  from assms(5,6) have st': "hostMap st' = hostMap st"
    "heap st' = (heap st)(?v := (heap st ?v)\<lparr>requests := requests (heap st ?v) + 1\<rparr>)"
    and w': "wpc w' = AtAddHostBytes" "whost w' = ?k" "wreqSize w' = wreqSize (ws ! i)"
    by (auto simp: hstep_def addHostRequests_def)
  from assms(5) have rk: "5 \<le> rank (wpc (ws ! i))" by simp
  have r: "reqCount k (ws[i := w']) = reqCount k ws + (if k = ?k then 1 else 0)" for k
    using assms(5) w' by (auto simp: reqCount_update [OF assms(4)])
  have b: "byteCount k (ws[i := w']) = byteCount k ws" for k
    using assms(5) w' by (simp add: byteCount_update [OF assms(4)])
  have pend: "\<forall>j<length ws. wpc (ws ! j) = AtLoadOrStore \<longrightarrow> wnewHS (ws ! j) \<noteq> ?v"
    using pending_not_stored [OF assms(2,3,4) rk] by blast
  have ent: "\<forall>kv\<in>set (hostMap st). (snd kv = ?v) = (fst kv = ?k)"
    using entry_cases [OF assms(2,3,4) rk] by blast
  show ?thesis
    unfolding countInv_def
  proof (intro conjI allI impI ballI)
    fix j
    assume j: "j < length (ws[i := w'])" and pc: "wpc (ws[i := w'] ! j) = AtLoadOrStore"
    with w' have ji: "j \<noteq> i" by auto
    with j pc assms(1) pend show "heap st' (wnewHS (ws[i := w'] ! j)) = zeroHostStats"
      unfolding countInv_def st' by simp
  next
    fix kv
    assume "kv \<in> set (hostMap st')"
    then have kv: "kv \<in> set (hostMap st)" by (simp add: st')
    with assms(1) have old: "requests (heap st (snd kv)) = reqCount (fst kv) ws"
      "hostStats.bytes (heap st (snd kv)) = byteCount (fst kv) ws"
      unfolding countInv_def by simp_all
    from ent kv have "(snd kv = ?v) = (fst kv = ?k)" by simp
    with old show "requests (heap st' (snd kv)) = reqCount (fst kv) (ws[i := w'])"
      and "hostStats.bytes (heap st' (snd kv)) = byteCount (fst kv) (ws[i := w'])"
      unfolding st' r b by auto
  qed
qed

lemma countInv_AddHostBytes:
  assumes "countInv st ws" and "shapeInv st ws" and "holdInv st ws" and "i < length ws"
    and "wpc (ws ! i) = AtAddHostBytes" and "hstep st (ws ! i) = (st', w')"
  shows "countInv st' (ws[i := w'])"
proof -
  let ?v = "wv (ws ! i)" and ?k = "whost (ws ! i)"
  from assms(5,6) have st': "hostMap st' = hostMap st"
    "heap st' = (heap st)(?v := (heap st ?v)\<lparr>hostStats.bytes :=
        hostStats.bytes (heap st ?v) + wreqSize (ws ! i)\<rparr>)"
    and w': "wpc w' = AtCountMethod" "whost w' = ?k" "wreqSize w' = wreqSize (ws ! i)"
    by (auto simp: hstep_def addHostBytes_def)
  from assms(5) have rk: "5 \<le> rank (wpc (ws ! i))" by simp
  have r: "reqCount k (ws[i := w']) = reqCount k ws" for k
    using assms(5) w' by (auto simp: reqCount_update [OF assms(4)])
  have b: "byteCount k (ws[i := w']) =
             byteCount k ws + (if k = ?k then wreqSize (ws ! i) else 0)" for k
    using assms(5) w' by (simp add: byteCount_update [OF assms(4)])
  have pend: "\<forall>j<length ws. wpc (ws ! j) = AtLoadOrStore \<longrightarrow> wnewHS (ws ! j) \<noteq> ?v"
    using pending_not_stored [OF assms(2,3,4) rk] by blast
  have ent: "\<forall>kv\<in>set (hostMap st). (snd kv = ?v) = (fst kv = ?k)"
    using entry_cases [OF assms(2,3,4) rk] by blast
  show ?thesis
    unfolding countInv_def
  proof (intro conjI allI impI ballI)
    fix j
    assume j: "j < length (ws[i := w'])" and pc: "wpc (ws[i := w'] ! j) = AtLoadOrStore"
    with w' have ji: "j \<noteq> i" by auto
    with j pc assms(1) pend show "heap st' (wnewHS (ws[i := w'] ! j)) = zeroHostStats"
      unfolding countInv_def st' by simp
  next
    fix kv
    assume "kv \<in> set (hostMap st')"
    then have kv: "kv \<in> set (hostMap st)" by (simp add: st')
    with assms(1) have old: "requests (heap st (snd kv)) = reqCount (fst kv) ws"
      "hostStats.bytes (heap st (snd kv)) = byteCount (fst kv) ws"
      unfolding countInv_def by simp_all
    from ent kv have "(snd kv = ?v) = (fst kv = ?k)" by simp
    with old show "requests (heap st' (snd kv)) = reqCount (fst kv) (ws[i := w'])"
      and "hostStats.bytes (heap st' (snd kv)) = byteCount (fst kv) (ws[i := w'])"
      unfolding st' r b by auto
  qed
qed

lemma countInv_step:
  assumes "countInv st ws" and "shapeInv st ws" and "holdInv st ws" and "i < length ws"
    and "hstep st (ws ! i) = (st', w')"
  shows "countInv st' (ws[i := w'])"
proof (cases "wpc (ws ! i)")
  case AtNewHS
  with assms show ?thesis by (simp add: countInv_NewHS)
next
  case AtLoadOrStore
  with assms show ?thesis by (simp add: countInv_LoadOrStore)
next
  case AtAddHostRequests
  with assms show ?thesis by (simp add: countInv_AddHostRequests)
next
  case AtAddHostBytes
  with assms show ?thesis by (simp add: countInv_AddHostBytes)
next
  case AtLoad
  with assms(5) show ?thesis
    by (intro countInv_frame [OF assms(1,4)])
       (auto simp: hstep_def split: option.splits)
qed (use assms(5) in \<open>intro countInv_frame [OF assms(1,4)];
       auto simp: hstep_def addTotalBytes_def addTotalRequests_def\<close>)+

lemma reachable_countInv:
  assumes "reachable u st ws"
  shows "countInv st ws"
  using assms
proof (induction rule: reachable.induct)
  case start
  show ?case by (rule countInv_start)
next
  case (arrive st ws ctx)
  then show ?case by (simp add: countInv_arrive)
next
  case (step st ws i st' w')
  from step.hyps(1) have "shapeInv st ws" "holdInv st ws"
    by (rule reachable_shapeInv, rule reachable_holdInv)
  with step show ?case by (simp add: countInv_step)
qed

lemma reachable_spawns: "reachable u initRegistry (map (spawn u) ctxs)"
proof (induction ctxs rule: rev_induct)
  case Nil
  show ?case by (simp add: reachable.start)
next
  case (snoc c ctxs)
  from reachable.arrive [OF snoc.IH, of c] show ?case by simp
qed

lemma reachable_runSchedule:
  assumes "reachable u (fst cfg) (snd cfg)"
  shows "reachable u (fst (runSchedule cfg sched)) (snd (runSchedule cfg sched))"
  using assms
proof (induction sched arbitrary: cfg)
  case Nil
  then show ?case by simp
next
  case (Cons i sched)
  show ?case
  proof (cases "i < length (snd cfg) \<and> wpc (snd cfg ! i) \<noteq> Finished")
    case True
    then have "reachable u (fst (hstep (fst cfg) (snd cfg ! i)))
                 ((snd cfg)[i := snd (hstep (fst cfg) (snd cfg ! i))])"
      by (intro reachable.step [OF Cons.prems]) simp_all
    from Cons.IH [of "(fst (hstep (fst cfg) (snd cfg ! i)),
        (snd cfg)[i := snd (hstep (fst cfg) (snd cfg ! i))])"] this True
    show ?thesis by simp
  next
    case False
    then have "runSchedule cfg (i # sched) = runSchedule cfg sched" by auto
    with Cons.IH [OF Cons.prems] show ?thesis by simp
  qed
qed

lemma reachable_raceRun: "reachable (\<lambda>s. s) (fst raceRun) (snd raceRun)"
  unfolding raceRun_def
  using reachable_spawns [of "\<lambda>s. s" "[getRequest, getRequest]"]
  by (intro reachable_runSchedule) simp

lemma raceRun_eval:
  "hostMap (fst raceRun) = [(''(no-host)'', 1)]"
  "heapNext (fst raceRun) = 2"
  "heap (fst raceRun) 0 = \<lparr>requests = 0, bytes = 0\<rparr>"
  "heap (fst raceRun) 1 = \<lparr>requests = 2, bytes = 50\<rparr>"
  "map wv (snd raceRun) = [1, 1]"
  "map wnewHS (snd raceRun) = [0, 1]"
  "map wpc (snd raceRun) = [Finished, Finished]"
  by (simp_all add: raceRun_def spawn_def getRequest_def hostKey_def ToLower_def isASCII_def
      reqSize_def reqSizeOf_def estReqLine_def hstep_def Load_def LoadOrStore_def
      newHostStats_def addTotalBytes_def addTotalRequests_def addHostRequests_def
      addHostBytes_def countMethod_def initRegistry_def zeroHostStats_def)

text \<open>
  Claim C6. In every state that the server can reach, with any number of requests in
  flight and any interleaving of their atomic steps: the host map has one entry per
  key; every worker past the get-or-create of lines 70 to 78 holds the object stored
  under its host, so all workers of one host hold the same object; and the stored
  object of a host counts every increment made by the workers of that host, so none
  went to a discarded duplicate. Run without interference, the get-or-create returns
  the stored object of the key when there is one, and otherwise allocates a zero
  object, stores it under the key and returns it.
\<close>

theorem load_or_create_converges:
  assumes "reachable mapUnicode st ws"
  shows "distinct (map fst (hostMap st))
       \<and> (\<forall>w\<in>set ws. 5 \<le> rank (wpc w) \<longrightarrow> Load st (whost w) = Some (wv w))
       \<and> (\<forall>w\<in>set ws. \<forall>w'\<in>set ws.
             5 \<le> rank (wpc w) \<and> 5 \<le> rank (wpc w') \<and> whost w = whost w' \<longrightarrow> wv w = wv w')
       \<and> (\<forall>k p. Load st k = Some p \<longrightarrow>
             requests (heap st p) = reqCount k ws
             \<and> hostStats.bytes (heap st p) = byteCount k ws)
       \<and> loadOrCreate k st =
           (case Load st k of
              Some v \<Rightarrow> (v, st)
            | None \<Rightarrow>
                (heapNext st,
                 st\<lparr>heap := (heap st)(heapNext st := zeroHostStats),
                    heapNext := heapNext st + 1,
                    hostMap := hostMap st @ [(k, heapNext st)]\<rparr>))"
proof -
  from assms have sh: "shapeInv st ws" and ho: "holdInv st ws" and co: "countInv st ws"
    by (rule reachable_shapeInv, rule reachable_holdInv, rule reachable_countInv)
  from sh have 1: "distinct (map fst (hostMap st))"
    by (simp add: shapeInv_def)
  from ho have 2: "\<forall>w\<in>set ws. 5 \<le> rank (wpc w) \<longrightarrow> Load st (whost w) = Some (wv w)"
    unfolding holdInv_def by (auto simp: in_set_conv_nth)
  have 3: "\<forall>w\<in>set ws. \<forall>w'\<in>set ws.
             5 \<le> rank (wpc w) \<and> 5 \<le> rank (wpc w') \<and> whost w = whost w' \<longrightarrow> wv w = wv w'"
  proof (intro ballI impI)
    fix w w'
    assume w: "w \<in> set ws" "w' \<in> set ws"
      and p: "5 \<le> rank (wpc w) \<and> 5 \<le> rank (wpc w') \<and> whost w = whost w'"
    from 2 w(1) p have "Load st (whost w) = Some (wv w)" by blast
    moreover from 2 w(2) p have "Load st (whost w') = Some (wv w')" by blast
    ultimately show "wv w = wv w'" using p by simp
  qed
  have 4: "\<forall>k p. Load st k = Some p \<longrightarrow>
             requests (heap st p) = reqCount k ws
             \<and> hostStats.bytes (heap st p) = byteCount k ws"
  proof (intro allI impI)
    fix k p
    assume "Load st k = Some p"
    then have "(k, p) \<in> set (hostMap st)" by (simp add: Load_def map_of_SomeD)
    with co show "requests (heap st p) = reqCount k ws
             \<and> hostStats.bytes (heap st p) = byteCount k ws"
      unfolding countInv_def by force
  qed
  have 5: "loadOrCreate k st =
           (case Load st k of
              Some v \<Rightarrow> (v, st)
            | None \<Rightarrow>
                (heapNext st,
                 st\<lparr>heap := (heap st)(heapNext st := zeroHostStats),
                    heapNext := heapNext st + 1,
                    hostMap := hostMap st @ [(k, heapNext st)]\<rparr>))"
    by (cases "Load st k") (simp_all add: loadOrCreate_absent loadOrCreate_present)
  from 1 2 3 4 5 show ?thesis by (intro conjI)
qed

theorem load_or_create_converges_witness:
  "reachable (\<lambda>s. s) (fst raceRun) (snd raceRun)
   \<and> map wnewHS (snd raceRun) = [0, 1]
   \<and> map wv (snd raceRun) = [1, 1]
   \<and> hostMap (fst raceRun) = [(''(no-host)'', 1)]
   \<and> distinct (map fst (hostMap (fst raceRun)))
   \<and> requests (heap (fst raceRun) 1) = reqCount ''(no-host)'' (snd raceRun)
   \<and> reqCount ''(no-host)'' (snd raceRun) = 2
   \<and> hostStats.bytes (heap (fst raceRun) 1) = 50"
proof -
  have l: "Load (fst raceRun) ''(no-host)'' = Some 1"
    by (simp add: Load_def raceRun_eval)
  from load_or_create_converges [OF reachable_raceRun, of "''(no-host)''"] l
  have d: "distinct (map fst (hostMap (fst raceRun)))"
    and r: "requests (heap (fst raceRun) 1) = reqCount ''(no-host)'' (snd raceRun)"
    and b: "hostStats.bytes (heap (fst raceRun) 1) = byteCount ''(no-host)'' (snd raceRun)"
    by simp_all
  have q: "requests (heap (fst raceRun) 1) = 2" "hostStats.bytes (heap (fst raceRun) 1) = 50"
    unfolding raceRun_eval(4) by simp_all
  have c: "reqCount ''(no-host)'' (snd raceRun) = 2"
    unfolding r [symmetric] by (rule q(1))
  from reachable_raceRun raceRun_eval(6) raceRun_eval(5) raceRun_eval(1) d r c q(2)
  show ?thesis by (intro conjI)
qed

lemma totalsInv_step:
  assumes "totalsInv st ws" and "i < length ws" and "hstep st (ws ! i) = (st', w')"
  shows "totalsInv st' (ws[i := w'])"
proof (cases "wpc (ws ! i)")
  case AtLoad
  with assms show ?thesis
    unfolding totalsInv_def
    by (auto simp: sum_list_map_update hstep_def split: option.splits)
next
  case AtNewHS
  with assms show ?thesis
    unfolding totalsInv_def
    by (auto simp: sum_list_map_update hstep_def newHostStats_def)
next
  case AtLoadOrStore
  with assms show ?thesis
    unfolding totalsInv_def
    by (auto simp: sum_list_map_update hstep_def LoadOrStore_def split: option.splits)
qed (use assms in \<open>auto simp: totalsInv_def sum_list_map_update hstep_def addTotalBytes_def
       addTotalRequests_def addHostRequests_def addHostBytes_def\<close>)

lemma reachable_totalsInv:
  assumes "reachable u st ws"
  shows "totalsInv st ws"
  using assms
proof (induction rule: reachable.induct)
  case start
  show ?case by (simp add: totalsInv_def initRegistry_def)
next
  case (arrive st ws ctx)
  then show ?case by (simp add: totalsInv_def spawn_def)
next
  case (step st ws i st' w')
  then show ?case by (simp add: totalsInv_step)
qed

lemma totals_any_interleaving:
  assumes "reachable u st ws" and "\<forall>w\<in>set ws. wpc w = Finished"
  shows "totalRequests st = word_of_nat (length ws)"
    and "totalBytes st = sum_list (map wreqSize ws)"
proof -
  from assms(2)
  have e1: "map (\<lambda>w. if 2 \<le> rank (wpc w) then 1 else 0) ws = map (\<lambda>w. 1::uint64) ws"
    by simp
  have c: "sum_list (map (\<lambda>w. 1::uint64) ws) = word_of_nat (length ws)"
    by (induction ws) simp_all
  from reachable_totalsInv [OF assms(1)]
  have "totalRequests st = sum_list (map (\<lambda>w. if 2 \<le> rank (wpc w) then 1 else 0) ws)"
    by (simp add: totalsInv_def)
  then show "totalRequests st = word_of_nat (length ws)"
    unfolding e1 c .
  from assms(2)
  have e2: "map (\<lambda>w. if 1 \<le> rank (wpc w) then wreqSize w else 0) ws = map wreqSize ws"
    by simp
  from reachable_totalsInv [OF assms(1)]
  have "totalBytes st = sum_list (map (\<lambda>w. if 1 \<le> rank (wpc w) then wreqSize w else 0) ws)"
    by (simp add: totalsInv_def)
  then show "totalBytes st = sum_list (map wreqSize ws)"
    unfolding e2 .
qed

text \<open>
  Claim C7. After any finite sequence of requests, handled from the initial state,
  \<open>totalRequests\<close> is the number of requests and \<open>totalBytes\<close> the sum of their size
  estimates: in \<^verbatim>\<open>uint64\<close> arithmetic always, and as numbers whenever the count resp. the
  sum is below \<open>2 ^ 64\<close>. From any state, two sequences that are rearrangements of each
  other lead to the same two totals. The same totals result when the requests run
  concurrently: in every reachable state in which all workers have finished, whatever
  the interleaving of their steps was.
\<close>

theorem record_totals_commutative:
  "totalRequests (serve mapUnicode ctxs initRegistry) = word_of_nat (length ctxs)
   \<and> totalBytes (serve mapUnicode ctxs initRegistry) = sum_list (map reqSize ctxs)
   \<and> (length ctxs < 2 ^ 64 \<longrightarrow>
        unat (totalRequests (serve mapUnicode ctxs initRegistry)) = length ctxs)
   \<and> (sum_list (map (\<lambda>c. unat (reqSize c)) ctxs) < 2 ^ 64 \<longrightarrow>
        unat (totalBytes (serve mapUnicode ctxs initRegistry)) =
          sum_list (map (\<lambda>c. unat (reqSize c)) ctxs))
   \<and> (mset ctxs' = mset ctxs \<longrightarrow>
        totalRequests (serve mapUnicode ctxs' st) = totalRequests (serve mapUnicode ctxs st)
        \<and> totalBytes (serve mapUnicode ctxs' st) = totalBytes (serve mapUnicode ctxs st))
   \<and> (reachable mapUnicode st' ws \<and> (\<forall>w\<in>set ws. wpc w = Finished) \<longrightarrow>
        totalRequests st' = word_of_nat (length ws)
        \<and> totalBytes st' = sum_list (map wreqSize ws))"
proof -
  have r: "totalRequests (serve mapUnicode ctxs initRegistry) = word_of_nat (length ctxs)"
    by (simp add: serve_totalRequests initRegistry_def)
  have b: "totalBytes (serve mapUnicode ctxs initRegistry) = sum_list (map reqSize ctxs)"
    by (simp add: serve_totalBytes initRegistry_def)
  have rn: "unat (totalRequests (serve mapUnicode ctxs initRegistry)) = length ctxs"
    if "length ctxs < 2 ^ 64"
    using that by (simp add: r unat_word_of_nat_64)
  have bn: "unat (totalBytes (serve mapUnicode ctxs initRegistry)) =
          sum_list (map (\<lambda>c. unat (reqSize c)) ctxs)"
    if "sum_list (map (\<lambda>c. unat (reqSize c)) ctxs) < 2 ^ 64"
    using that unat_sum_list [of "map reqSize ctxs"] by (simp add: b comp_def)
  have p: "totalRequests (serve mapUnicode ctxs' st) = totalRequests (serve mapUnicode ctxs st)
        \<and> totalBytes (serve mapUnicode ctxs' st) = totalBytes (serve mapUnicode ctxs st)"
    if "mset ctxs' = mset ctxs"
  proof -
    from that have "length ctxs' = length ctxs" by (rule mset_eq_length)
    moreover from that have "sum_list (map reqSize ctxs') = sum_list (map reqSize ctxs)"
      by (rule sum_list_perm)
    ultimately show ?thesis
      by (simp add: serve_totalRequests serve_totalBytes)
  qed
  have c: "totalRequests st' = word_of_nat (length ws)
        \<and> totalBytes st' = sum_list (map wreqSize ws)"
    if "reachable mapUnicode st' ws \<and> (\<forall>w\<in>set ws. wpc w = Finished)"
    using that totals_any_interleaving [of mapUnicode st' ws] by simp
  from r b rn bn p c show ?thesis by (intro conjI impI) simp_all
qed

theorem record_totals_commutative_witness:
  "unat (totalRequests (serve (\<lambda>s. s) [getRequest, postRequest] initRegistry)) = 2
   \<and> unat (totalBytes (serve (\<lambda>s. s) [getRequest, postRequest] initRegistry)) = 210
   \<and> totalBytes (serve (\<lambda>s. s) [postRequest, getRequest] initRegistry) =
       totalBytes (serve (\<lambda>s. s) [getRequest, postRequest] initRegistry)
   \<and> reachable (\<lambda>s. s) (fst raceRun) (snd raceRun)
   \<and> map wpc (snd raceRun) = [Finished, Finished]
   \<and> totalRequests (fst raceRun) = 2
   \<and> totalBytes (fst raceRun) = 50"
proof -
  have s1: "reqSize getRequest = 25" and s2: "reqSize postRequest = 185"
    by (simp_all add: getRequest_def postRequest_def reqSize_def reqSizeOf_def estReqLine_def)
  have l: "length [getRequest, postRequest] < 2 ^ 64" by simp
  have sm: "sum_list (map (\<lambda>c. unat (reqSize c)) [getRequest, postRequest]) < 2 ^ 64"
    by (simp add: s1 s2)
  have m: "mset [postRequest, getRequest] = mset [getRequest, postRequest]" by simp
  have "set (map wpc (snd raceRun)) = {Finished}"
    by (simp add: raceRun_eval(7))
  then have f: "\<forall>w\<in>set (snd raceRun). wpc w = Finished" by auto
  have len: "length (snd raceRun) = 2"
    using arg_cong [OF raceRun_eval(7), of length] by simp
  have sz: "map wreqSize (snd raceRun) = [25, 25]"
    by (simp add: raceRun_def spawn_def getRequest_def hostKey_def ToLower_def isASCII_def
      reqSize_def reqSizeOf_def estReqLine_def hstep_def Load_def LoadOrStore_def
      newHostStats_def addTotalBytes_def addTotalRequests_def addHostRequests_def
      addHostBytes_def countMethod_def initRegistry_def zeroHostStats_def)
  from record_totals_commutative [of "\<lambda>s. s" "[getRequest, postRequest]"
      "[postRequest, getRequest]" initRegistry "fst raceRun" "snd raceRun"]
    l sm m f reachable_raceRun
  show ?thesis
    by (simp add: s1 s2 len sz raceRun_eval(7))
qed

lemma alone_eq_h:
  "fst (alone (st, spawn u ctx)) = fst (h u ctx st)
   \<and> wctx (snd (alone (st, spawn u ctx))) = snd (h u ctx st)
   \<and> wpc (snd (alone (st, spawn u ctx))) = Finished"
proof (cases "Load st (hostKey u (Host ctx))")
  case None
  then have n: "map_of (hostMap st) (hostKey u (Host ctx)) = None" by (simp add: Load_def)
  show ?thesis
    unfolding h_absent [OF None] h_response
    by (simp add: alone_def eval_nat_numeral spawn_def hstep_def Load_def n LoadOrStore_def
        newHostStats_def addTotalBytes_def addTotalRequests_def addHostRequests_def
        addHostBytes_def zeroHostStats_def)
next
  case (Some v)
  then have n: "map_of (hostMap st) (hostKey u (Host ctx)) = Some v" by (simp add: Load_def)
  show ?thesis
    unfolding h_present [OF Some] h_response
    by (simp add: alone_def eval_nat_numeral spawn_def hstep_def Load_def n LoadOrStore_def
        newHostStats_def addTotalBytes_def addTotalRequests_def addHostRequests_def
        addHostBytes_def zeroHostStats_def)
qed

lemma hstep_progress:
  "(if wpc w = Finished then hstep st w = (st, w)
    else rank (wpc w) < rank (wpc (snd (hstep st w))))"
  by (cases "wpc w")
     (auto simp: hstep_def newHostStats_def LoadOrStore_def split: option.splits)

lemma hstep_responded:
  assumes "hstep st w = (st', w')" and "wpc w \<noteq> Finished" and "wpc w' = Finished"
  shows "StatusCode (wctx w') = 200
       \<and> ContentType (wctx w') = ''text/plain; charset=utf-8''
       \<and> ResponseBody (wctx w') = ''OK''"
  using assms
  by (cases "wpc w")
     (auto simp: hstep_def newHostStats_def LoadOrStore_def split: option.splits)

lemma reachable_respondedInv:
  assumes "reachable u st ws"
  shows "respondedInv ws"
  using assms
proof (induction rule: reachable.induct)
  case start
  show ?case by (simp add: respondedInv_def)
next
  case (arrive st ws ctx)
  then show ?case by (auto simp: respondedInv_def nth_append spawn_def less_Suc_eq)
next
  case (step st ws i st' w')
  from hstep_responded [OF step.hyps(4,3)] step.IH step.hyps(2) show ?case
    by (auto simp: respondedInv_def nth_list_update)
qed

text \<open>
  Claim C3. Whatever the request and the state of the counters, the handler answers
  with status 200, content type \<open>text/plain; charset=utf-8\<close> and body \<open>OK\<close>. The
  handler has no error path: \<open>h\<close> is a total function without an error result; it is
  what a worker computes in nine steps of its own; every atomic step is defined in
  every state and takes an unfinished worker to a later step, whatever the other
  workers do; and in every reachable state every finished worker holds that response.
\<close>

theorem handler_always_OK:
  "StatusCode (snd (h mapUnicode ctx st)) = 200
   \<and> ContentType (snd (h mapUnicode ctx st)) = ''text/plain; charset=utf-8''
   \<and> ResponseBody (snd (h mapUnicode ctx st)) = ''OK''
   \<and> wctx (snd (alone (st, spawn mapUnicode ctx))) = snd (h mapUnicode ctx st)
   \<and> wpc (snd (alone (st, spawn mapUnicode ctx))) = Finished
   \<and> (if wpc w = Finished then hstep st w = (st, w)
       else rank (wpc w) < rank (wpc (snd (hstep st w))))
   \<and> (reachable mapUnicode st' ws \<and> w' \<in> set ws \<and> wpc w' = Finished \<longrightarrow>
        StatusCode (wctx w') = 200
        \<and> ContentType (wctx w') = ''text/plain; charset=utf-8''
        \<and> ResponseBody (wctx w') = ''OK'')"
proof -
  have "StatusCode (wctx w') = 200
        \<and> ContentType (wctx w') = ''text/plain; charset=utf-8''
        \<and> ResponseBody (wctx w') = ''OK''"
    if "reachable mapUnicode st' ws \<and> w' \<in> set ws \<and> wpc w' = Finished"
  proof -
    from that obtain j where "j < length ws" "ws ! j = w'"
      by (auto simp: in_set_conv_nth)
    with that reachable_respondedInv [of mapUnicode st' ws] show ?thesis
      by (auto simp: respondedInv_def)
  qed
  with alone_eq_h [of st mapUnicode ctx] hstep_progress [of w st] show ?thesis
    by (simp add: h_response)
qed

theorem handler_always_OK_witness:
  "reachable (\<lambda>s. s) (fst raceRun) (snd raceRun)
   \<and> map wpc (snd raceRun) = [Finished, Finished]
   \<and> StatusCode (wctx (snd raceRun ! 0)) = 200
   \<and> ResponseBody (wctx (snd raceRun ! 0)) = ''OK''
   \<and> StatusCode (wctx (snd raceRun ! 1)) = 200
   \<and> ResponseBody (wctx (snd raceRun ! 1)) = ''OK''"
proof -
  have len: "length (snd raceRun) = 2"
    using arg_cong [OF raceRun_eval(7), of length] by simp
  have p: "wpc (snd raceRun ! 0) = Finished" "wpc (snd raceRun ! 1) = Finished"
    using arg_cong [OF raceRun_eval(7), of "\<lambda>xs. xs ! 0"]
      arg_cong [OF raceRun_eval(7), of "\<lambda>xs. xs ! 1"] len by simp_all
  have m: "snd raceRun ! 0 \<in> set (snd raceRun)" "snd raceRun ! 1 \<in> set (snd raceRun)"
    using len by simp_all
  note a = handler_always_OK [of _ _ _ _ "fst raceRun" "snd raceRun" "snd raceRun ! 0"]
  note b = handler_always_OK [of _ _ _ _ "fst raceRun" "snd raceRun" "snd raceRun ! 1"]
  from a reachable_raceRun m(1) p(1)
  have r0: "StatusCode (wctx (snd raceRun ! 0)) = 200"
    "ResponseBody (wctx (snd raceRun ! 0)) = ''OK''"
    by blast+
  from b reachable_raceRun m(2) p(2)
  have r1: "StatusCode (wctx (snd raceRun ! 1)) = 200"
    "ResponseBody (wctx (snd raceRun ! 1)) = ''OK''"
    by blast+
  from reachable_raceRun raceRun_eval(7) r0 r1 show ?thesis by (intro conjI)
qed

lemma reachable_last_step:
  assumes "reachable u st (ws @ [w])"
  shows "reachable u (fst (hstep st w)) (ws @ [snd (hstep st w)])"
proof (cases "wpc w = Finished")
  case True
  then have "hstep st w = (st, w)" by (simp add: hstep_def)
  with assms show ?thesis by simp
next
  case False
  from reachable.step [OF assms, of "length ws" "fst (hstep st w)" "snd (hstep st w)"] False
  show ?thesis by simp
qed

lemma reachable_last_steps:
  assumes "reachable u st (ws @ [w])"
  shows "reachable u (fst (((\<lambda>(st, w). hstep st w) ^^ n) (st, w)))
           (ws @ [snd (((\<lambda>(st, w). hstep st w) ^^ n) (st, w))])"
proof (induction n)
  case 0
  from assms show ?case by simp
next
  case (Suc n)
  from reachable_last_step [OF Suc] show ?case
    by (simp add: split_beta)
qed

lemma reachable_alone:
  assumes "reachable u st ws"
  shows "reachable u (fst (h u ctx st)) (ws @ [snd (alone (st, spawn u ctx))])"
  using reachable_last_steps [OF reachable.arrive [OF assms, of ctx], of 9] alone_eq_h [of st u ctx]
  by (simp add: alone_def)

lemma reachable_serve_from:
  assumes "reachable u st ws"
  shows "\<exists>ws'. reachable u (serve u ctxs st) ws'"
  using assms
proof (induction ctxs arbitrary: st ws)
  case Nil
  then show ?case by auto
next
  case (Cons c ctxs)
  from Cons.IH [OF reachable_alone [OF Cons.prems, of c]] show ?case by simp
qed

lemma reachable_serve: "\<exists>ws. reachable u (serve u ctxs initRegistry) ws"
  by (rule reachable_serve_from [OF reachable.start])

lemma distinct_keys_serve: "distinct (map fst (hostMap (serve u ctxs initRegistry)))"
proof -
  from reachable_serve [of u ctxs] obtain ws where "reachable u (serve u ctxs initRegistry) ws" ..
  from reachable_shapeInv [OF this] show ?thesis
    by (simp add: shapeInv_def)
qed



section \<open>Counters over time, for concurrent requests\<close>

lemma word_le_inc:
  assumes "unat (x :: uint64) + 1 < 2 ^ 64"
  shows "x \<le> x + 1"
  using word_le_add [of x 1] assms by simp

lemma countersLe_frame:
  assumes "totalRequests st \<le> totalRequests st'" and "totalBytes st \<le> totalBytes st'"
    and "get (methods st) \<le> get (methods st')" and "post (methods st) \<le> post (methods st')"
    and "other (methods st) \<le> other (methods st')"
    and "\<And>k p. Load st k = Some p \<Longrightarrow> Load st' k = Some p"
    and "\<And>k p. Load st k = Some p \<Longrightarrow> requests (heap st p) \<le> requests (heap st' p)"
    and "\<And>k p. Load st k = Some p \<Longrightarrow>
           hostStats.bytes (heap st p) \<le> hostStats.bytes (heap st' p)"
  shows "countersLe st st'"
  using assms unfolding countersLe_def by blast

lemma countersLe_hstep:
  assumes sh: "shapeInv st ws" and i: "i < length ws"
    and hs: "hstep st (ws ! i) = (st', w')"
    and room: "headroom (unat (wreqSize (ws ! i))) st"
  shows "countersLe st st'"
proof (cases "wpc (ws ! i)")
  case AtAddTotalBytes
  with hs have "st' = addTotalBytes (wreqSize (ws ! i)) st" by (simp add: hstep_def)
  with room show ?thesis
    by (intro countersLe_frame) (simp_all add: addTotalBytes_def Load_def headroom_def word_le_add)
next
  case AtAddTotalRequests
  with hs have "st' = addTotalRequests 1 st" by (simp add: hstep_def)
  with room show ?thesis
    by (intro countersLe_frame)
       (simp_all add: addTotalRequests_def Load_def headroom_def word_le_inc)
next
  case AtLoad
  with hs have "st' = st" by (auto simp: hstep_def split: option.splits)
  then show ?thesis by (simp add: countersLe_refl)
next
  case AtNewHS
  with hs have st': "st' = st\<lparr>heap := (heap st)(heapNext st := zeroHostStats),
      heapNext := heapNext st + 1\<rparr>"
    by (auto simp: hstep_def newHostStats_def)
  have "p \<noteq> heapNext st" if "Load st k = Some p" for k p
  proof -
    from that have "(k, p) \<in> set (hostMap st)" by (simp add: Load_def map_of_SomeD)
    with sh show ?thesis unfolding shapeInv_def by auto
  qed
  then show ?thesis
    unfolding st' by (intro countersLe_frame) (simp_all add: Load_def)
next
  case AtLoadOrStore
  show ?thesis
  proof (cases "map_of (hostMap st) (whost (ws ! i))")
    case None
    with AtLoadOrStore hs
    have st': "st' = st\<lparr>hostMap := hostMap st @ [(whost (ws ! i), wnewHS (ws ! i))]\<rparr>"
      by (auto simp: hstep_def LoadOrStore_def)
    show ?thesis
      unfolding st' by (intro countersLe_frame) (simp_all add: Load_def map_add_def)
  next
    case (Some a)
    with AtLoadOrStore hs have "st' = st" by (auto simp: hstep_def LoadOrStore_def)
    then show ?thesis by (simp add: countersLe_refl)
  qed
next
  case AtAddHostRequests
  with hs have "st' = addHostRequests (wv (ws ! i)) 1 st" by (simp add: hstep_def)
  with room show ?thesis
    by (intro countersLe_frame)
       (simp_all add: addHostRequests_def Load_def headroom_def word_le_inc)
next
  case AtAddHostBytes
  with hs have "st' = addHostBytes (wv (ws ! i)) (wreqSize (ws ! i)) st"
    by (simp add: hstep_def)
  with room show ?thesis
    by (intro countersLe_frame)
       (simp_all add: addHostBytes_def Load_def headroom_def word_le_add)
next
  case AtCountMethod
  with hs have "st' = st\<lparr>methods := countMethod (Method (wctx (ws ! i))) (methods st)\<rparr>"
    by (simp add: hstep_def)
  with room show ?thesis
    by (intro countersLe_frame)
       (simp_all add: countMethod_def Load_def headroom_def word_le_inc)
next
  case AtRespond
  with hs have "st' = st" by (auto simp: hstep_def)
  then show ?thesis by (simp add: countersLe_refl)
next
  case Finished
  with hs have "st' = st" by (auto simp: hstep_def)
  then show ?thesis by (simp add: countersLe_refl)
qed

lemma hstep_reqSize:
  assumes "hstep st w = (st', w')"
  shows "wreqSize w' = wreqSize w \<and> reqSize (wctx w') = reqSize (wctx w)"
  using assms
  by (cases "wpc w")
     (auto simp: hstep_def reqSize_def newHostStats_def LoadOrStore_def split: option.splits)

lemma reachable_sizeInv:
  assumes "reachable u st ws"
  shows "sizeInv ws"
  using assms
proof (induction rule: reachable.induct)
  case start
  show ?case by (simp add: sizeInv_def)
next
  case (arrive st ws ctx)
  then show ?case by (auto simp: sizeInv_def nth_append spawn_def less_Suc_eq)
next
  case (step st ws i st' w')
  from hstep_reqSize [OF step.hyps(4)] step.IH step.hyps(2) show ?case
    by (auto simp: sizeInv_def nth_list_update)
qed

lemma unat_sum_list_le:
  fixes xs :: "uint64 list"
  shows "unat (sum_list xs) \<le> sum_list (map unat xs)"
proof (induction xs)
  case Nil
  show ?case by simp
next
  case (Cons x xs)
  from unat_add_le [of x "sum_list xs"] Cons show ?case by simp
qed

lemma sum_list_mono_nth:
  fixes f g :: "'a \<Rightarrow> nat"
  assumes "\<forall>j<length xs. f (xs ! j) \<le> g (xs ! j)"
  shows "sum_list (map f xs) \<le> sum_list (map g xs)"
proof -
  from assms have "\<forall>x\<in>set xs. f x \<le> g x" by (auto simp: in_set_conv_nth)
  then show ?thesis by (induction xs) (simp_all add: add_mono)
qed

lemma bytes_ge_eleven_requests_reachable:
  assumes r: "reachable u st ws"
    and b: "sum_list (map (\<lambda>w. sizeNat (wctx w)) ws) < 2 ^ 64"
  shows "11 * unat (totalRequests st) \<le> unat (totalBytes st)"
proof -
  let ?f = "\<lambda>w. if 1 \<le> rank (wpc w) then wreqSize w else 0"
  let ?g = "\<lambda>w. if 2 \<le> rank (wpc w) then (1::uint64) else 0"
  from reachable_totalsInv [OF r] have tb: "totalBytes st = sum_list (map ?f ws)"
    and tr: "totalRequests st = sum_list (map ?g ws)"
    by (simp_all add: totalsInv_def)
  have sz: "unat (wreqSize (ws ! j)) = sizeNat (wctx (ws ! j))" if j: "j < length ws" for j
  proof -
    from j have "ws ! j \<in> set ws" by simp
    then have "sizeNat (wctx (ws ! j)) \<le> sum_list (map (\<lambda>w. sizeNat (wctx w)) ws)"
      using member_le_sum_list [of "sizeNat (wctx (ws ! j))" "map (\<lambda>w. sizeNat (wctx w)) ws"]
      by simp
    with b have "sizeNat (wctx (ws ! j)) < 2 ^ 64" by simp
    from unat_reqSize [OF this] reachable_sizeInv [OF r] j show ?thesis
      by (simp add: sizeInv_def)
  qed
  have "sum_list (map (\<lambda>w. unat (?f w)) ws) \<le> sum_list (map (\<lambda>w. sizeNat (wctx w)) ws)"
    by (rule sum_list_mono_nth) (simp add: sz)
  with b have "sum_list (map unat (map ?f ws)) < 2 ^ 64"
    by (simp add: comp_def)
  from unat_sum_list [OF this]
  have ub: "unat (totalBytes st) = sum_list (map (\<lambda>w. unat (?f w)) ws)"
    by (simp add: tb comp_def)
  have "unat (totalRequests st) \<le> sum_list (map (\<lambda>w. unat (?g w)) ws)"
    using unat_sum_list_le [of "map ?g ws"] by (simp add: tr comp_def)
  then have "11 * unat (totalRequests st) \<le> 11 * sum_list (map (\<lambda>w. unat (?g w)) ws)"
    by simp
  also have "\<dots> = sum_list (map (\<lambda>w. 11 * unat (?g w)) ws)"
    by (simp add: sum_list_const_mult)
  also have "\<dots> \<le> sum_list (map (\<lambda>w. unat (?f w)) ws)"
    by (rule sum_list_mono_nth) (auto simp: sz sizeNat_def)
  finally show ?thesis
    by (simp add: ub)
qed

text \<open>
  Claim C8, as amended. The counters are \<^verbatim>\<open>uint64\<close> and nothing in the program handles
  their overflow, so a counter read later is at least the counter read earlier only
  while nothing has wrapped. For requests handled from the initial state, fewer than
  \<open>2 ^ 64\<close> of them with size estimates adding up to less than \<open>2 ^ 64\<close>, every counter
  (the two totals, the three method counters, the pair of every host) after \<open>ctxs\<close> is
  at most its value after \<open>ctxs\<close> and the further requests \<open>later\<close>. And for concurrent
  requests, a single atomic step of any worker, from any reachable state, lowers no
  counter when every counter has room for the increments of that worker's request.
\<close>

theorem counters_monotone_until_wrap:
  "(length ctxs + length later < 2 ^ 64
      \<and> sum_list (map (\<lambda>c. unat (reqSize c)) (ctxs @ later)) < 2 ^ 64 \<longrightarrow>
      countersLe (serve mapUnicode ctxs initRegistry)
        (serve mapUnicode (ctxs @ later) initRegistry))
   \<and> (reachable mapUnicode st ws \<and> i < length ws \<and> hstep st (ws ! i) = (st', w')
      \<and> headroom (unat (wreqSize (ws ! i))) st \<longrightarrow>
      countersLe st st')"
proof (intro conjI impI)
  assume a: "length ctxs + length later < 2 ^ 64
      \<and> sum_list (map (\<lambda>c. unat (reqSize c)) (ctxs @ later)) < 2 ^ 64"
  have "bounded (length ctxs) (sum_list (map (\<lambda>c. unat (reqSize c)) ctxs))
          (serve mapUnicode ctxs initRegistry)"
    using bounded_serve [OF bounded_init, of ctxs mapUnicode] by simp
  from countersLe_serve [OF this, of later mapUnicode] a
  show "countersLe (serve mapUnicode ctxs initRegistry)
          (serve mapUnicode (ctxs @ later) initRegistry)"
    by (simp add: serve_append)
next
  assume a: "reachable mapUnicode st ws \<and> i < length ws \<and> hstep st (ws ! i) = (st', w')
      \<and> headroom (unat (wreqSize (ws ! i))) st"
  then have "reachable mapUnicode st ws" by simp
  then have "shapeInv st ws" by (rule reachable_shapeInv)
  with a show "countersLe st st'"
    by (intro countersLe_hstep [of st ws i st' w']) simp_all
qed

theorem counters_monotone_until_wrap_witness:
  "countersLe (serve (\<lambda>s. s) [getRequest] initRegistry)
     (serve (\<lambda>s. s) ([getRequest] @ [postRequest]) initRegistry)
   \<and> totalBytes (serve (\<lambda>s. s) [getRequest] initRegistry) = 25
   \<and> totalBytes (serve (\<lambda>s. s) ([getRequest] @ [postRequest]) initRegistry) = 210
   \<and> reachable (\<lambda>s. s) initRegistry [spawn (\<lambda>s. s) getRequest]
   \<and> headroom 25 initRegistry
   \<and> countersLe initRegistry (fst (hstep initRegistry (spawn (\<lambda>s. s) getRequest)))
   \<and> totalBytes (fst (hstep initRegistry (spawn (\<lambda>s. s) getRequest))) = 25"
proof -
  have s1: "reqSize getRequest = 25" and s2: "reqSize postRequest = 185"
    by (simp_all add: getRequest_def postRequest_def reqSize_def reqSizeOf_def estReqLine_def)
  have l: "length [getRequest] + length [postRequest] < 2 ^ 64" by simp
  have b: "sum_list (map (\<lambda>c. unat (reqSize c)) ([getRequest] @ [postRequest])) < 2 ^ 64"
    by (simp add: s1 s2)
  have t1: "totalBytes (serve (\<lambda>s. s) [getRequest] initRegistry) = 25"
    unfolding serve_totalBytes by (simp add: initRegistry_def s1)
  have t2: "totalBytes (serve (\<lambda>s. s) ([getRequest] @ [postRequest]) initRegistry) = 210"
    unfolding serve_totalBytes by (simp add: initRegistry_def s1 s2)
  have r: "reachable (\<lambda>s. s) initRegistry [spawn (\<lambda>s. s) getRequest]"
    using reachable_spawns [of "\<lambda>s. s" "[getRequest]"] by simp
  have sz: "wreqSize (spawn (\<lambda>s. s) getRequest) = 25"
    by (simp add: spawn_def s1)
  have hr: "headroom 25 initRegistry"
    by (simp add: headroom_def initRegistry_def zeroHostStats_def)
  have t3: "totalBytes (fst (hstep initRegistry (spawn (\<lambda>s. s) getRequest))) = 25"
    by (simp add: hstep_def spawn_def s1 addTotalBytes_def initRegistry_def)
  note inst = counters_monotone_until_wrap [of "[getRequest]" "[postRequest]" "\<lambda>s. s"
      initRegistry "[spawn (\<lambda>s. s) getRequest]" 0
      "fst (hstep initRegistry (spawn (\<lambda>s. s) getRequest))"
      "snd (hstep initRegistry (spawn (\<lambda>s. s) getRequest))"]
  from inst l b have c1: "countersLe (serve (\<lambda>s. s) [getRequest] initRegistry)
     (serve (\<lambda>s. s) ([getRequest] @ [postRequest]) initRegistry)"
    by blast
  from inst r hr sz
  have c2: "countersLe initRegistry (fst (hstep initRegistry (spawn (\<lambda>s. s) getRequest)))"
    by simp
  from c1 t1 t2 r hr c2 t3 show ?thesis by (intro conjI)
qed

lemma reqSize_bigRequest: "reqSize bigRequest = 2097152"
  by (simp add: bigRequest_def reqSize_def reqSizeOf_def estReqLine_def)

lemma serve_replicate_totalBytes:
  "totalBytes (serve u (replicate n c) initRegistry) = word_of_nat n * reqSize c"
  by (simp add: serve_totalBytes initRegistry_def sum_list_replicate)

text \<open>
  Claim C8 as stated fails where a counter wraps: after \<open>2 ^ 43 - 1\<close> requests of two
  mebibytes \<open>totalBytes\<close> is \<open>2 ^ 64 - 2 ^ 21\<close>, and the next such request takes it
  to 0.
\<close>

theorem counters_wrap_counterexample:
  "\<not> countersLe (serve (\<lambda>s. s) (replicate 8796093022207 bigRequest) initRegistry)
        (serve (\<lambda>s. s) (replicate 8796093022207 bigRequest @ [bigRequest]) initRegistry)"
proof -
  have a: "totalBytes (serve (\<lambda>s. s) (replicate 8796093022207 bigRequest) initRegistry)
             = 18446744073707454464"
    by (simp add: serve_replicate_totalBytes reqSize_bigRequest)
  have b: "totalBytes (serve (\<lambda>s. s) (replicate 8796093022207 bigRequest @ [bigRequest])
             initRegistry) = 0"
    by (simp add: serve_totalBytes initRegistry_def sum_list_replicate reqSize_bigRequest)
  show ?thesis
    unfolding countersLe_def a b by simp
qed

text \<open>
  Claim C10, as amended. After any sequence of requests, handled from the initial
  state, whose size estimates as numbers add up to less than \<open>2 ^ 64\<close>, the two totals
  are exact and \<open>totalBytes\<close> is at least 11 times \<open>totalRequests\<close>. The handler adds
  to \<open>totalBytes\<close> before it adds to \<open>totalRequests\<close>, so for concurrent requests the
  inequality holds in every reachable state, also while requests are in flight, as
  long as the size estimates of all requests that have arrived add up to less than
  \<open>2 ^ 64\<close>.
\<close>

theorem bytes_at_least_eleven_per_request:
  "(totalSizeNat ctxs < 2 ^ 64 \<longrightarrow>
      11 * unat (totalRequests (serve mapUnicode ctxs initRegistry))
        \<le> unat (totalBytes (serve mapUnicode ctxs initRegistry))
      \<and> unat (totalRequests (serve mapUnicode ctxs initRegistry)) = length ctxs
      \<and> unat (totalBytes (serve mapUnicode ctxs initRegistry)) = totalSizeNat ctxs)
   \<and> (reachable mapUnicode st ws \<and> sum_list (map (\<lambda>w. sizeNat (wctx w)) ws) < 2 ^ 64 \<longrightarrow>
      11 * unat (totalRequests st) \<le> unat (totalBytes st))"
proof (intro conjI impI)
  assume a: "totalSizeNat ctxs < 2 ^ 64"
  from unat_totals [OF a, of mapUnicode] eleven_le_total [of ctxs]
  show "11 * unat (totalRequests (serve mapUnicode ctxs initRegistry))
        \<le> unat (totalBytes (serve mapUnicode ctxs initRegistry))"
    and "unat (totalRequests (serve mapUnicode ctxs initRegistry)) = length ctxs"
    and "unat (totalBytes (serve mapUnicode ctxs initRegistry)) = totalSizeNat ctxs"
    by simp_all
next
  assume "reachable mapUnicode st ws \<and> sum_list (map (\<lambda>w. sizeNat (wctx w)) ws) < 2 ^ 64"
  then show "11 * unat (totalRequests st) \<le> unat (totalBytes st)"
    using bytes_ge_eleven_requests_reachable [of mapUnicode st ws] by simp
qed

theorem bytes_at_least_eleven_per_request_witness:
  "11 * unat (totalRequests (serve (\<lambda>s. s) [getRequest, postRequest] initRegistry))
     \<le> unat (totalBytes (serve (\<lambda>s. s) [getRequest, postRequest] initRegistry))
   \<and> unat (totalBytes (serve (\<lambda>s. s) [getRequest, postRequest] initRegistry)) = 210
   \<and> reachable (\<lambda>s. s) (fst raceRun) (snd raceRun)
   \<and> 11 * unat (totalRequests (fst raceRun)) \<le> unat (totalBytes (fst raceRun))"
proof -
  have t: "totalSizeNat [getRequest, postRequest] = 210"
    by (simp add: totalSizeNat_def sizeNat_def getRequest_def postRequest_def)
  then have t': "totalSizeNat [getRequest, postRequest] < 2 ^ 64" by simp
  have "map (\<lambda>w. sizeNat (wctx w)) (snd raceRun) = [25, 25]"
    by (simp add: raceRun_def spawn_def getRequest_def hostKey_def ToLower_def isASCII_def
      reqSize_def reqSizeOf_def estReqLine_def hstep_def Load_def LoadOrStore_def
      newHostStats_def addTotalBytes_def addTotalRequests_def addHostRequests_def
      addHostBytes_def countMethod_def initRegistry_def zeroHostStats_def sizeNat_def)
  then have s: "sum_list (map (\<lambda>w. sizeNat (wctx w)) (snd raceRun)) < 2 ^ 64"
    by simp
  note inst = bytes_at_least_eleven_per_request [of "[getRequest, postRequest]" "\<lambda>s. s"
      "fst raceRun" "snd raceRun"]
  from inst t' t have
    a: "11 * unat (totalRequests (serve (\<lambda>s. s) [getRequest, postRequest] initRegistry))
          \<le> unat (totalBytes (serve (\<lambda>s. s) [getRequest, postRequest] initRegistry))"
    and b: "unat (totalBytes (serve (\<lambda>s. s) [getRequest, postRequest] initRegistry)) = 210"
    by simp_all
  from inst reachable_raceRun s
  have c: "11 * unat (totalRequests (fst raceRun)) \<le> unat (totalBytes (fst raceRun))"
    by blast
  from a b reachable_raceRun c show ?thesis by (intro conjI)
qed

text \<open>
  Claim C10 as stated fails once \<open>totalBytes\<close> has wrapped: after \<open>2 ^ 43\<close> requests of
  two mebibytes it is 0, while \<open>totalRequests\<close> is \<open>2 ^ 43\<close>.
\<close>

theorem bytes_wrap_counterexample:
  "\<not> 11 * unat (totalRequests (serve (\<lambda>s. s) (replicate 8796093022208 bigRequest) initRegistry))
       \<le> unat (totalBytes (serve (\<lambda>s. s) (replicate 8796093022208 bigRequest) initRegistry))"
proof -
  have a: "totalBytes (serve (\<lambda>s. s) (replicate 8796093022208 bigRequest) initRegistry) = 0"
    by (simp add: serve_replicate_totalBytes reqSize_bigRequest)
  have b: "totalRequests (serve (\<lambda>s. s) (replicate 8796093022208 bigRequest) initRegistry)
             = 8796093022208"
    by (simp add: serve_totalRequests initRegistry_def)
  show ?thesis
    unfolding a b by simp
qed

end
